theory Spec2Isabelle
  imports Main "HOL-Library.Sublist"
begin

section \<open>Python values\<close>

text \<open>
  The values that flow through \<open>xMapxIntake.py\<close>: a spreadsheet cell read by pandas is a
  string, an integer or a blank (pandas reads a blank cell as the float NaN); a field of a
  database row is a string, an integer or \<open>None\<close> (SQL NULL).

  Python decides \<open>x in [a, b, c]\<close> and membership of a tuple in a set by "identical or
  equal". On \<open>None\<close>, strings and integers that is equality of the values. A NaN is unequal
  to everything under \<open>==\<close>, itself included, and is found only where the very same float
  object occurs; \<open>PNaN\<close> therefore carries the identity of its object, so that HOL's
  equality on \<open>pyval\<close> is exactly Python's "identical or equal", and \<open>x == 'N'\<close> against a
  string literal is HOL equality with \<open>PStr ''N''\<close>. Floats other than NaN, booleans and
  dates are not modelled.

  A string is the list of its characters, and a character is its code point: the type
  \<open>char\<close> holds the code points below 256 (ASCII and Latin-1), and the string methods are
  modelled on all of them as Python defines them there. Characters from U+0100 on are
  outside the model.
\<close>

datatype pyval = PNone | PStr string | PInt int | PNaN nat

text \<open>Python's truth value of an object, as \<open>if x:\<close> reads it.\<close>

fun truthy :: "pyval \<Rightarrow> bool" where
  "truthy PNone = False"
| "truthy (PStr s) = (s \<noteq> [])"
| "truthy (PInt i) = (i \<noteq> 0)"
| "truthy (PNaN k) = True"

text \<open>\<open>xs.index(x)\<close>: the position of the first element that is \<open>x\<close>; \<open>None\<close> stands for
  the \<open>ValueError\<close> Python raises when there is none.\<close>

fun index_of :: "'a list \<Rightarrow> 'a \<Rightarrow> nat option" where
  "index_of [] x = None"
| "index_of (y # ys) x =
     (if y = x then Some 0 else (case index_of ys x of None \<Rightarrow> None | Some i \<Rightarrow> Some (Suc i)))"

text \<open>The decimal numeral of a natural number, as an f-string formats an \<open>int\<close>.\<close>

definition digit_char :: "nat \<Rightarrow> char" where
  "digit_char d = ''0123456789'' ! d"

function str_nat :: "nat \<Rightarrow> string" where
  "str_nat n = (if n < 10 then [digit_char n] else str_nat (n div 10) @ [digit_char (n mod 10)])"
  by pat_completeness auto
termination
  by (relation "measure id") auto

section \<open>Service-event classification\<close>

text \<open>
  \<open>determine_llcode\<close> (lines 110 to 118). Each branch is the conditional expression
  \<^verbatim>\<open>f"XSNG{[d1, d2, d3].index(person_served) + 1}" if person_served in [d1, d2, d3] else None\<close>
  with its own prefix; the result is \<open>None\<close> or the code.
\<close>

definition determine_llcode :: "pyval \<Rightarrow> pyval \<Rightarrow> pyval \<Rightarrow> pyval \<Rightarrow> pyval \<Rightarrow> string option" where
  "determine_llcode service_type person_served d1 d2 d3 =
     (if service_type = PStr ''N'' then
        (if person_served \<in> set [d1, d2, d3]
         then map_option (\<lambda>i. ''XSNG'' @ str_nat (i + 1)) (index_of [d1, d2, d3] person_served)
         else None)
      else if service_type = PStr ''S'' then
        (if person_served \<in> set [d1, d2, d3]
         then map_option (\<lambda>i. ''XSUBS'' @ str_nat (i + 1)) (index_of [d1, d2, d3] person_served)
         else None)
      else if service_type = PStr ''P'' then
        (if person_served \<in> set [d1, d2, d3]
         then map_option (\<lambda>i. ''XPS'' @ str_nat (i + 1)) (index_of [d1, d2, d3] person_served)
         else None)
      else None)"

section \<open>The case database\<close>

text \<open>
  A row of the table \<open>dbo.MASTER\<close>, as far as the query of \<open>fetch_defendants\<close> reads it.
  A defendant column is a string or NULL. The table is given as the list of its rows in
  the order in which the server returns them (the query has no ORDER BY).
\<close>

record master_row =
  FileNo :: pyval
  DEFENDANT_1 :: "string option"
  DEFENDANT_2 :: "string option"
  DEFENDANT_3 :: "string option"

text \<open>SQL Server's \<open>LTRIM\<close> and \<open>RTRIM\<close> remove leading and trailing spaces (character 32);
  of NULL they are NULL, which the driver hands to Python as \<open>None\<close>.\<close>

definition LTRIM :: "string \<Rightarrow> string" where
  "LTRIM s = dropWhile (\<lambda>c. c = CHR '' '') s"

definition RTRIM :: "string \<Rightarrow> string" where
  "RTRIM s = rev (dropWhile (\<lambda>c. c = CHR '' '') (rev s))"

definition sql_field :: "string option \<Rightarrow> pyval" where
  "sql_field d = (case d of None \<Rightarrow> PNone | Some s \<Rightarrow> PStr (LTRIM (RTRIM s)))"

text \<open>The result of \<open>cursor.fetchall()\<close> for the query of lines 57 to 61.\<close>

definition query_master :: "master_row list \<Rightarrow> (pyval \<times> pyval \<times> pyval \<times> pyval) list" where
  "query_master tbl =
     map (\<lambda>r. (FileNo r, sql_field (DEFENDANT_1 r), sql_field (DEFENDANT_2 r),
               sql_field (DEFENDANT_3 r)))
       (filter (\<lambda>r. DEFENDANT_1 r \<noteq> None \<or> DEFENDANT_2 r \<noteq> None \<or> DEFENDANT_3 r \<noteq> None) tbl)"

text \<open>The loop of lines 65 to 69 over the fetched rows.\<close>

fun scan_rows :: "pyval \<Rightarrow> (pyval \<times> pyval \<times> pyval \<times> pyval) list \<Rightarrow> pyval \<times> pyval \<times> pyval \<times> pyval" where
  "scan_rows person_served [] = (PNone, PNone, PNone, PNone)"
| "scan_rows person_served ((file_no, d1, d2, d3) # rows) =
     (if person_served \<in> set [d1, d2, d3] then (file_no, d1, d2, d3)
      else scan_rows person_served rows)"

definition fetch_defendants :: "master_row list \<Rightarrow> pyval \<Rightarrow> pyval \<times> pyval \<times> pyval \<times> pyval" where
  "fetch_defendants tbl person_served = scan_rows person_served (query_master tbl)"

section \<open>The spreadsheet\<close>

text \<open>
  The frame that \<open>pd.read_excel\<close> returns: the column headers and, for every row in file
  order, its cells in column order. \<open>iterrows\<close> yields each row as a series, here the
  association list of header and cell. Headers are strings, and distinct after stripping
  (for a repeated header pandas selects a frame and not a cell, which is not modelled).
\<close>

record dataframe =
  columns :: "string list"
  cells :: "pyval list list"

type_synonym series = "(string \<times> pyval) list"

definition iterrows :: "dataframe \<Rightarrow> series list" where
  "iterrows df = map (zip (columns df)) (cells df)"

datatype error = KeyError string | AttributeError

text \<open>\<open>row[k]\<close> raises \<open>KeyError\<close> for a missing label; \<open>row.get(k, default)\<close> does not.\<close>

definition getitem :: "series \<Rightarrow> string \<Rightarrow> error + pyval" where
  "getitem row k = (case map_of row k of None \<Rightarrow> Inl (KeyError k) | Some v \<Rightarrow> Inr v)"

definition series_get :: "series \<Rightarrow> string \<Rightarrow> pyval \<Rightarrow> pyval" where
  "series_get row k dflt = (case map_of row k of None \<Rightarrow> dflt | Some v \<Rightarrow> v)"

text \<open>\<open>str.strip()\<close>: the characters below U+0100 that Python counts as whitespace, among
  them the next-line character U+0085 and the no-break space U+00A0.\<close>

definition is_space :: "char \<Rightarrow> bool" where
  "is_space c = (c \<in> set [CHR 0x09, CHR 0x0A, CHR 0x0B, CHR 0x0C, CHR 0x0D,
                          CHR 0x1C, CHR 0x1D, CHR 0x1E, CHR 0x1F, CHR '' '',
                          CHR 0x85, CHR 0xA0])"

definition strip :: "string \<Rightarrow> string" where
  "strip s = rev (dropWhile is_space (rev (dropWhile is_space s)))"

text \<open>\<open>s.replace(old, new)\<close> for single characters.\<close>

definition replace_char :: "char \<Rightarrow> char \<Rightarrow> string \<Rightarrow> string" where
  "replace_char old new s = map (\<lambda>c. if c = old then new else c) s"

text \<open>\<open>notes.replace('\n', ' ').replace('\r', ' ')\<close>: only a string has the method; on a
  blank cell (a float) or a number the call raises \<open>AttributeError\<close>.\<close>

definition clean_notes :: "pyval \<Rightarrow> error + string" where
  "clean_notes notes =
     (case notes of
        PStr n \<Rightarrow> Inr (replace_char (CHR 0x0D) (CHR '' '') (replace_char (CHR 0x0A) (CHR '' '') n))
      | _ \<Rightarrow> Inl AttributeError)"

section \<open>Processing a spreadsheet\<close>

text \<open>
  The variables of the loop of \<open>process_excel_file\<close> (lines 84 to 86), and with them
  \<open>db_queries\<close>: the names passed to \<open>fetch_defendants\<close>, in call order. Each call
  connects to the database and runs the query, an effect that the two returned lists do
  not show.
\<close>

record loop_state =
  output_data_1 :: "pyval list list"
  output_data_2 :: "pyval list list"
  processed_pairs :: "(pyval \<times> pyval) set"
  db_queries :: "pyval list"

text \<open>The body of the loop (lines 89 to 106). An exception leaves the function, so the
  lists built so far are lost with it: the result is the error alone.\<close>

definition process_row :: "master_row list \<Rightarrow> series \<Rightarrow> loop_state \<Rightarrow> error + loop_state" where
  "process_row db row s =
     (case getitem row ''FileNo'' of Inl e \<Rightarrow> Inl e | Inr file_no \<Rightarrow>
      case getitem row ''Person Served'' of Inl e \<Rightarrow> Inl e | Inr person_served \<Rightarrow>
      case getitem row ''Service Type'' of Inl e \<Rightarrow> Inl e | Inr service_type \<Rightarrow>
      case getitem row ''Date of Service'' of Inl e \<Rightarrow> Inl e | Inr date_of_service \<Rightarrow>
      case getitem row ''Service Street Address'' of Inl e \<Rightarrow> Inl e | Inr address \<Rightarrow>
      let notes = series_get row ''Note'' (PStr []) in
      if (file_no, person_served) \<in> processed_pairs s then Inr s
      else
        case fetch_defendants db person_served of (matched_file_no, d1, d2, d3) \<Rightarrow>
        let s1 = s\<lparr>db_queries := db_queries s @ [person_served]\<rparr> in
        if truthy matched_file_no then
          (case determine_llcode service_type person_served d1 d2 d3 of
             None \<Rightarrow> Inr s1
           | Some llcode \<Rightarrow>
               if llcode \<noteq> [] then
                 (case clean_notes notes of
                    Inl e \<Rightarrow> Inl e
                  | Inr cleaned_notes \<Rightarrow>
                      Inr (s1\<lparr>output_data_1 := output_data_1 s1 @
                                [[file_no, PStr llcode, person_served, date_of_service, address,
                                  service_type]],
                              output_data_2 := output_data_2 s1 @
                                [[PInt 109, PStr ''D'', file_no, PStr ''XNSRV'', PStr ''MWC'',
                                  PStr cleaned_notes, PStr ''#'']],
                              processed_pairs := insert (file_no, person_served) (processed_pairs s1)\<rparr>))
               else Inr s1)
        else Inr s1)"

fun process_rows :: "master_row list \<Rightarrow> series list \<Rightarrow> loop_state \<Rightarrow> error + loop_state" where
  "process_rows db [] s = Inr s"
| "process_rows db (row # rows) s =
     (case process_row db row s of Inl e \<Rightarrow> Inl e | Inr s' \<Rightarrow> process_rows db rows s')"

definition initial_state :: loop_state where
  "initial_state =
     \<lparr>output_data_1 = [], output_data_2 = [], processed_pairs = {}, db_queries = []\<rparr>"

text \<open>The message of line 80.\<close>

definition missing_column_message :: "string \<Rightarrow> string" where
  "missing_column_message input_excel_path =
     [CHR 0x27] @ ''Document Category'' @ [CHR 0x27] @ '' column missing in '' @ input_excel_path"

text \<open>The rows that line 83 keeps, after line 77 has stripped the headers.\<close>

definition filtered_df :: "dataframe \<Rightarrow> series list" where
  "filtered_df df =
     filter (\<lambda>row. map_of row ''Document Category'' = Some (PStr ''Summons and Complaint''))
       (iterrows (df\<lparr>columns := map strip (columns df)\<rparr>))"

text \<open>\<open>process_excel_file\<close> on the frame read from \<open>input_excel_path\<close>: the lines it
  prints, and the two lists it returns or the exception it raises.\<close>

definition process_excel_file ::
  "master_row list \<Rightarrow> string \<Rightarrow> dataframe \<Rightarrow> string list \<times> (error + pyval list list \<times> pyval list list)" where
  "process_excel_file db input_excel_path df =
     (if ''Document Category'' \<notin> set (map strip (columns df))
      then ([missing_column_message input_excel_path], Inr ([], []))
      else
        ([], case process_rows db (filtered_df df) initial_state of
               Inl e \<Rightarrow> Inl e
             | Inr s \<Rightarrow> Inr (output_data_1 s, output_data_2 s)))"

section \<open>File names and paths\<close>

text \<open>\<open>str.lower()\<close> on the characters below U+0100: the letters A to Z, and the Latin-1
  capitals U+00C0 to U+00DE without the multiplication sign U+00D7, each go to the
  character 32 places on; every other character stays.\<close>

definition upper_chars :: string where
  "upper_chars =
     ''ABCDEFGHIJKLMNOPQRSTUVWXYZ'' @
     [CHR 0xC0, CHR 0xC1, CHR 0xC2, CHR 0xC3, CHR 0xC4, CHR 0xC5, CHR 0xC6, CHR 0xC7,
      CHR 0xC8, CHR 0xC9, CHR 0xCA, CHR 0xCB, CHR 0xCC, CHR 0xCD, CHR 0xCE, CHR 0xCF,
      CHR 0xD0, CHR 0xD1, CHR 0xD2, CHR 0xD3, CHR 0xD4, CHR 0xD5, CHR 0xD6, CHR 0xD8,
      CHR 0xD9, CHR 0xDA, CHR 0xDB, CHR 0xDC, CHR 0xDD, CHR 0xDE]"

definition lower_chars :: string where
  "lower_chars =
     ''abcdefghijklmnopqrstuvwxyz'' @
     [CHR 0xE0, CHR 0xE1, CHR 0xE2, CHR 0xE3, CHR 0xE4, CHR 0xE5, CHR 0xE6, CHR 0xE7,
      CHR 0xE8, CHR 0xE9, CHR 0xEA, CHR 0xEB, CHR 0xEC, CHR 0xED, CHR 0xEE, CHR 0xEF,
      CHR 0xF0, CHR 0xF1, CHR 0xF2, CHR 0xF3, CHR 0xF4, CHR 0xF5, CHR 0xF6, CHR 0xF8,
      CHR 0xF9, CHR 0xFA, CHR 0xFB, CHR 0xFC, CHR 0xFD, CHR 0xFE]"

definition lower_char :: "char \<Rightarrow> char" where
  "lower_char c = (case map_of (zip upper_chars lower_chars) c of None \<Rightarrow> c | Some l \<Rightarrow> l)"

definition lower :: "string \<Rightarrow> string" where
  "lower s = map lower_char s"

text \<open>\<open>str.isdigit()\<close>: false on the empty string, and true of a string all of whose
  characters are digits. Below U+0100 Python counts as digits the decimal digits 0 to 9
  and the superscript digits U+00B2, U+00B3 and U+00B9.\<close>

definition digit_chars :: string where
  "digit_chars = ''0123456789'' @ [CHR 0xB2, CHR 0xB3, CHR 0xB9]"

definition isdigit :: "string \<Rightarrow> bool" where
  "isdigit s = (s \<noteq> [] \<and> (\<forall>c\<in>set s. c \<in> set digit_chars))"

text \<open>\<open>str.split(sep)\<close> for a separator of one character. \<open>split\<close> never returns the empty
  list, so element 0 of its result always exists.\<close>

fun split_char :: "char \<Rightarrow> string \<Rightarrow> string list" where
  "split_char sep [] = [[]]"
| "split_char sep (c # cs) =
     (if c = sep then [] # split_char sep cs
      else (case split_char sep cs of [] \<Rightarrow> [[c]] | w # ws \<Rightarrow> (c # w) # ws))"

text \<open>\<open>os.path.join\<close> of two components and \<open>os.path.splitext\<close>, as \<open>posixpath\<close> defines
  them: the extension starts at the last dot of the last path component, unless only
  dots stand before it in that component.\<close>

definition join :: "string \<Rightarrow> string \<Rightarrow> string" where
  "join a b =
     (if prefix ''/'' b then b
      else if a = [] \<or> suffix ''/'' a then a @ b
      else a @ ''/'' @ b)"

definition splitext :: "string \<Rightarrow> string \<times> string" where
  "splitext p =
     (let tail = rev (takeWhile (\<lambda>c. c \<noteq> CHR ''/'') (rev p));
          after_dot = rev (takeWhile (\<lambda>c. c \<noteq> CHR ''.'') (rev tail));
          dot_index = length p - (length after_dot + 1)
      in if CHR ''.'' \<in> set tail \<and>
            (\<exists>c\<in>set (take (length tail - (length after_dot + 1)) tail). c \<noteq> CHR ''.'')
         then (take dot_index p, drop dot_index p)
         else (p, []))"

section \<open>Tagging the PDFs of judgments\<close>

text \<open>
  \<open>process_xjmtr\<close> (lines 35 to 45) on the names that \<open>os.listdir(src_dir)\<close> returns, in
  that order. The result is the text of the file after the \<open>with\<close> block; \<open>xjmtr_loop\<close>
  is the \<open>for\<close> loop, with the text written so far. The lines printed to the console are
  left out.
\<close>

fun xjmtr_loop :: "string list \<Rightarrow> string \<Rightarrow> string" where
  "xjmtr_loop [] xjmtr_file = xjmtr_file"
| "xjmtr_loop (filename # rest) xjmtr_file =
     (if suffix ''.pdf'' (lower filename) \<and> sublist ''judgment'' (lower filename) then
        (let fileno = split_char (CHR ''_'') filename ! 0 in
         if isdigit fileno
         then xjmtr_loop rest (xjmtr_file @ fileno @ [CHR 0x09] @ ''XJMTR'' @ [CHR 0x0A])
         else xjmtr_loop rest xjmtr_file)
      else xjmtr_loop rest xjmtr_file)"

definition process_xjmtr :: "string list \<Rightarrow> string" where
  "process_xjmtr listing = xjmtr_loop listing (''FILENO'' @ [CHR 0x09] @ ''LLCODE'' @ [CHR 0x0A])"

section \<open>Moving the files\<close>

text \<open>
  \<open>move_files\<close> (lines 123 to 141) acts on the file system only; its model is the list
  of the calls it makes, in order, when none of them fails: the tag file written by
  \<open>process_xjmtr\<close>, and for each entry the call of \<open>ensure_folder_exists\<close> and of
  \<open>shutil.move\<close>. An entry of the listing is the name that \<open>os.listdir\<close> returns with the
  value of \<open>os.path.isfile\<close> for it when the loop reaches it.
\<close>

datatype os_call = EnsureFolder string | Move string string | WriteFile string string

definition move_entry :: "string \<Rightarrow> string \<Rightarrow> string \<Rightarrow> string \<times> bool \<Rightarrow> os_call list" where
  "move_entry src_dir data_folder documents_folder entry =
     (case entry of (filename, is_file) \<Rightarrow>
        let file_path = join src_dir filename in
        if is_file then
          (case splitext filename of (name, ext) \<Rightarrow>
             if lower ext \<in> set [''.xlsx'', ''.xls'', ''.csv''] then
               (let folder_name = split_char (CHR ''_'') name ! 0;
                    subfolder = join data_folder folder_name
                in [EnsureFolder subfolder, Move file_path (join subfolder filename)])
             else if lower ext = ''.pdf'' then
               (let folder_name = (if length (split_char (CHR ''_'') name) > 1
                                   then split_char (CHR ''_'') name ! 1 else ''Unknown'');
                    subfolder = join documents_folder folder_name;
                    new_filename = replace_char (CHR ''_'') (CHR '' '') filename
                in [EnsureFolder subfolder, Move file_path (join subfolder new_filename)])
             else [])
        else [])"

fun move_loop :: "string \<Rightarrow> string \<Rightarrow> string \<Rightarrow> (string \<times> bool) list \<Rightarrow> os_call list" where
  "move_loop src_dir data_folder documents_folder [] = []"
| "move_loop src_dir data_folder documents_folder (entry # rest) =
     move_entry src_dir data_folder documents_folder entry @
     move_loop src_dir data_folder documents_folder rest"

definition move_files :: "string \<Rightarrow> string \<Rightarrow> string \<Rightarrow> string \<Rightarrow> (string \<times> bool) list \<Rightarrow> os_call list" where
  "move_files src_dir data_folder documents_folder xjmtr_file_path entries =
     WriteFile xjmtr_file_path (process_xjmtr (map fst entries)) #
     move_loop src_dir data_folder documents_folder entries"

section \<open>Notions used to state the properties\<close>

text \<open>The cell of a row under a header (\<open>None\<close> where the row has no such header), and
  the pair by which \<open>process_excel_file\<close> tells the rows apart.\<close>

definition field :: "series \<Rightarrow> string \<Rightarrow> pyval" where
  "field row k = series_get row k PNone"

definition pair_of :: "series \<Rightarrow> pyval \<times> pyval" where
  "pair_of row = (field row ''FileNo'', field row ''Person Served'')"

text \<open>The code that lines 99 to 102 compute for a row, if they compute one: the lookup
  finds a case whose \<open>FileNo\<close> is true in Python's sense, and \<open>determine_llcode\<close> returns a
  code for it.\<close>

definition llcode_of :: "master_row list \<Rightarrow> series \<Rightarrow> string option" where
  "llcode_of db row =
     (case fetch_defendants db (field row ''Person Served'') of (matched_file_no, d1, d2, d3) \<Rightarrow>
        if truthy matched_file_no
        then (case determine_llcode (field row ''Service Type'') (field row ''Person Served'') d1 d2 d3 of
                None \<Rightarrow> None
              | Some llcode \<Rightarrow> if llcode \<noteq> [] then Some llcode else None)
        else None)"

text \<open>The rows that lines 103 and 105 append for an accepted row.\<close>

definition out_row_1 :: "master_row list \<Rightarrow> series \<Rightarrow> pyval list" where
  "out_row_1 db row =
     [field row ''FileNo'', PStr (the (llcode_of db row)), field row ''Person Served'',
      field row ''Date of Service'', field row ''Service Street Address'', field row ''Service Type'']"

definition out_row_2 :: "series \<Rightarrow> pyval list" where
  "out_row_2 row =
     [PInt 109, PStr ''D'', field row ''FileNo'', PStr ''XNSRV'', PStr ''MWC'',
      PStr (case clean_notes (series_get row ''Note'' (PStr [])) of Inr c \<Rightarrow> c | Inl e \<Rightarrow> []),
      PStr ''#'']"

text \<open>The rows of a list that the loop accepts when it starts with the set \<open>P\<close> of
  processed pairs.\<close>

fun accepted :: "master_row list \<Rightarrow> (pyval \<times> pyval) set \<Rightarrow> series list \<Rightarrow> series list" where
  "accepted db P [] = []"
| "accepted db P (r # rs) =
     (if pair_of r \<notin> P \<and> llcode_of db r \<noteq> None
      then r # accepted db (insert (pair_of r) P) rs
      else accepted db P rs)"

definition yielding_pairs :: "master_row list \<Rightarrow> series list \<Rightarrow> (pyval \<times> pyval) set" where
  "yielding_pairs db pre = {p. \<exists>x\<in>set pre. pair_of x = p \<and> llcode_of db x \<noteq> None}"

text \<open>Row \<open>i\<close> yields a code, and no earlier row with the same pair does.\<close>

definition first_accepted :: "master_row list \<Rightarrow> series list \<Rightarrow> nat \<Rightarrow> bool" where
  "first_accepted db rows i \<longleftrightarrow>
     llcode_of db (rows ! i) \<noteq> None \<and>
     (\<forall>j<i. pair_of (rows ! j) = pair_of (rows ! i) \<longrightarrow> llcode_of db (rows ! j) = None)"

text \<open>The defendant slots of a table row as the query returns them, trimmed.\<close>

definition trimmed_slots :: "master_row \<Rightarrow> pyval list" where
  "trimmed_slots r =
     [sql_field (DEFENDANT_1 r), sql_field (DEFENDANT_2 r), sql_field (DEFENDANT_3 r)]"

text \<open>A directory entry that \<open>process_xjmtr\<close> tags: its name ends in \<open>.pdf\<close> and contains
  \<open>judgment\<close>, both without regard to case, and the part before its first underscore is
  not empty and has digits only: decimal digits or superscript digits.\<close>

definition case_prefix :: "string \<Rightarrow> string" where
  "case_prefix filename = takeWhile (\<lambda>c. c \<noteq> CHR ''_'') filename"

definition tagged_pdf :: "string \<Rightarrow> bool" where
  "tagged_pdf filename \<longleftrightarrow>
     suffix ''.pdf'' (lower filename) \<and> sublist ''judgment'' (lower filename) \<and>
     case_prefix filename \<noteq> [] \<and>
     (\<forall>c\<in>set (case_prefix filename).
        c \<in> set (''0123456789'' @ [CHR 0xB2, CHR 0xB3, CHR 0xB9]))"

text \<open>The second field of a PDF's name without its extension, when fields are separated
  by underscores: what follows the first underscore, up to the next underscore or else
  to the end of the name.\<close>

definition second_field :: "string \<Rightarrow> string" where
  "second_field name =
     takeWhile (\<lambda>c. c \<noteq> CHR ''_'') (tl (dropWhile (\<lambda>c. c \<noteq> CHR ''_'') name))"

definition pdf_subfolder :: "string \<Rightarrow> string" where
  "pdf_subfolder filename =
     (let name = fst (splitext filename)
      in if CHR ''_'' \<in> set name then second_field name else ''Unknown'')"

text \<open>The extensions that \<open>move_files\<close> acts on.\<close>

definition routed_ext :: "string \<Rightarrow> bool" where
  "routed_ext ext \<longleftrightarrow> lower ext \<in> {''.xlsx'', ''.xls'', ''.csv'', ''.pdf''}"

text \<open>The rows of a sheet whose cell under the header that strips to
  \<open>Document Category\<close> is exactly \<open>Summons and Complaint\<close>, in file order, each as the
  series of its stripped headers and cells.\<close>

definition summons_rows :: "dataframe \<Rightarrow> series list" where
  "summons_rows df =
     (let headers = map strip (columns df)
      in map (zip headers)
           (filter (\<lambda>cs. map_of (zip headers cs) ''Document Category'' =
                           Some (PStr ''Summons and Complaint'')) (cells df)))"

text \<open>The frame without the rows of other categories: what line 83 selects, as a frame.\<close>

definition summons_only :: "dataframe \<Rightarrow> dataframe" where
  "summons_only df =
     df\<lparr>cells :=
          filter (\<lambda>cs. map_of (zip (map strip (columns df)) cs) ''Document Category'' =
                         Some (PStr ''Summons and Complaint'')) (cells df)\<rparr>"

text \<open>What \<open>process_excel_file\<close> uses of a table row: whether its \<open>FileNo\<close> is true, and its
  three defendants.\<close>

definition used_of_row :: "master_row \<Rightarrow> bool \<times> string option \<times> string option \<times> string option" where
  "used_of_row r = (truthy (FileNo r), DEFENDANT_1 r, DEFENDANT_2 r, DEFENDANT_3 r)"

text \<open>The line that \<open>process_xjmtr\<close> writes for a tagged entry, without its newline.\<close>

definition tag_line :: "string \<Rightarrow> string" where
  "tag_line filename = case_prefix filename @ [CHR 0x09] @ ''XJMTR''"

text \<open>The last component of a path, and the extension that \<open>splitext\<close> finds in it.\<close>

definition last_component :: "string \<Rightarrow> string" where
  "last_component p = rev (takeWhile (\<lambda>c. c \<noteq> CHR ''/'') (rev p))"

definition ext_of_component :: "string \<Rightarrow> string" where
  "ext_of_component t =
     (if CHR ''.'' \<in> set t \<and>
         (\<exists>c\<in>set (take (length t - (length (rev (takeWhile (\<lambda>c. c \<noteq> CHR ''.'') (rev t))) + 1)) t).
            c \<noteq> CHR ''.'')
      then drop (length t - (length (rev (takeWhile (\<lambda>c. c \<noteq> CHR ''.'') (rev t))) + 1)) t
      else [])"

section \<open>Sample data\<close>

text \<open>One case in the database, whose defendant is stored with spaces around the name, and
  a sheet of three rows for the same case id and person served, with the service types
  X, N and S. Two headers of the sheet carry spaces.\<close>

definition sample_db :: "master_row list" where
  "sample_db =
     [\<lparr>FileNo = PInt 999, DEFENDANT_1 = Some '' John Doe  '', DEFENDANT_2 = None,
       DEFENDANT_3 = None\<rparr>]"

definition sample_df :: dataframe where
  "sample_df =
     \<lparr>columns = [''FileNo'', ''Person Served'', ''Service Type '', ''Date of Service'',
                 ''Service Street Address'', ''Note'', '' Document Category''],
      cells =
        [[PInt 500, PStr ''John Doe'', PStr ''X'', PStr ''2024-01-02'', PStr ''1 Main St'',
          PStr ''first'', PStr ''Summons and Complaint''],
         [PInt 500, PStr ''John Doe'', PStr ''N'', PStr ''2024-01-03'', PStr ''2 Side St'',
          PStr ''second'', PStr ''Summons and Complaint''],
         [PInt 500, PStr ''John Doe'', PStr ''S'', PStr ''2024-01-04'', PStr ''3 Back St'',
          PStr ''third'', PStr ''Summons and Complaint'']]\<rparr>"

text \<open>A row for a person whom no case of \<open>sample_db\<close> names.\<close>

definition unmatched_row :: series where
  "unmatched_row =
     [(''FileNo'', PInt 7), (''Person Served'', PStr ''Richard Roe''), (''Service Type'', PStr ''N''),
      (''Date of Service'', PStr ''2024-02-01''), (''Service Street Address'', PStr ''9 High St'')]"

text \<open>A sheet without the column \<open>Document Category\<close>.\<close>

definition uncategorised_df :: dataframe where
  "uncategorised_df =
     \<lparr>columns = [''FileNo'', ''Person Served'', ''Service Type'', ''Category ''],
      cells = [[PInt 500, PStr ''John Doe'', PStr ''N'', PStr ''Summons and Complaint'']]\<rparr>"

text \<open>A sheet whose category header ends in a no-break space, with one row of the
  category \<open>Summons and Complaint\<close> between a row of another category and a row whose
  category differs in case only. The notes of those two rows are blank.\<close>

definition mixed_df :: dataframe where
  "mixed_df =
     \<lparr>columns = [''FileNo'', ''Person Served'', ''Service Type'', ''Date of Service'',
                 ''Service Street Address'', ''Note'', ''Document Category'' @ [CHR 0xA0]],
      cells =
        [[PInt 41, PStr ''John Doe'', PStr ''N'', PStr ''2024-03-01'', PStr ''4 Low Rd'',
          PNaN 0, PStr ''Affidavit of Service''],
         [PInt 42, PStr ''John Doe'', PStr ''P'', PStr ''2024-03-02'', PStr ''5 Low Rd'',
          PStr ''left at door'', PStr ''Summons and Complaint''],
         [PInt 43, PStr ''John Doe'', PStr ''S'', PStr ''2024-03-03'', PStr ''6 Low Rd'',
          PNaN 1, PStr ''summons and complaint'']]\<rparr>"

text \<open>A table of four cases: one without defendants, and two that name Jane Doe, the
  first of them with spaces around the name.\<close>

definition sample_master :: "master_row list" where
  "sample_master =
     [\<lparr>FileNo = PInt 1, DEFENDANT_1 = None, DEFENDANT_2 = None, DEFENDANT_3 = None\<rparr>,
      \<lparr>FileNo = PInt 2, DEFENDANT_1 = Some ''John Doe'', DEFENDANT_2 = None, DEFENDANT_3 = None\<rparr>,
      \<lparr>FileNo = PInt 3, DEFENDANT_1 = Some ''Ann Poe'', DEFENDANT_2 = Some ''  Jane Doe '',
       DEFENDANT_3 = None\<rparr>,
      \<lparr>FileNo = PInt 4, DEFENDANT_1 = Some ''Jane Doe'', DEFENDANT_2 = None, DEFENDANT_3 = None\<rparr>]"

section \<open>Properties of the classification\<close>

lemma str_nat_1: "str_nat (Suc 0) = ''1''"
  by (simp add: digit_char_def)

lemma str_nat_2: "str_nat (Suc (Suc 0)) = ''2''"
  by (simp add: digit_char_def)

lemma str_nat_3: "str_nat (Suc (Suc (Suc 0))) = ''3''"
  by (simp add: digit_char_def)

lemma slot_numeral:
  "person_served \<in> {d1, d2, d3} \<Longrightarrow>
   map_option (\<lambda>i. pfx @ str_nat (i + 1)) (index_of [d1, d2, d3] person_served) =
     Some (pfx @ (if person_served = d1 then ''1'' else if person_served = d2 then ''2'' else ''3''))"
  by (auto simp: str_nat_1 str_nat_2 str_nat_3 simp del: str_nat.simps)

text \<open>
  C1. When the person served is one of the three defendant names and the service type is
  N, S or P, \<open>determine_llcode\<close> returns the prefix of the service type (N: XSNG, S: XSUBS,
  P: XPS) followed by the number of the lowest slot, in the order 1, 2, 3, that holds the
  person served.
\<close>

theorem determine_llcode_slot:
  assumes "person_served \<in> {d1, d2, d3}"
    and "service_type \<in> {PStr ''N'', PStr ''S'', PStr ''P''}"
  shows "determine_llcode service_type person_served d1 d2 d3 =
     Some ((if service_type = PStr ''N'' then ''XSNG''
            else if service_type = PStr ''S'' then ''XSUBS'' else ''XPS'')
           @ (if person_served = d1 then ''1'' else if person_served = d2 then ''2'' else ''3''))"
  using assms slot_numeral [of person_served d1 d2 d3]
  by (auto simp: determine_llcode_def simp del: str_nat.simps)

theorem determine_llcode_slot_witness:
  "determine_llcode (PStr ''S'') (PStr ''B'') (PStr ''A'') (PStr ''B'') (PStr ''C'') = Some ''XSUBS2''"
  using determine_llcode_slot [of "PStr ''B''" "PStr ''A''" "PStr ''B''" "PStr ''C''" "PStr ''S''"]
  by simp

section \<open>Properties of the spreadsheet run\<close>


lemma getitem_field: "getitem row k = Inr v \<Longrightarrow> field row k = v"
  by (auto simp: getitem_def field_def series_get_def split: option.splits)

lemma process_row_columns:
  assumes "process_row db row s = Inr s'"
  obtains file_no person_served service_type date_of_service address where
    "getitem row ''FileNo'' = Inr file_no"
    "getitem row ''Person Served'' = Inr person_served"
    "getitem row ''Service Type'' = Inr service_type"
    "getitem row ''Date of Service'' = Inr date_of_service"
    "getitem row ''Service Street Address'' = Inr address"
  using assms unfolding process_row_def
  by (simp split: sum.splits)

lemma process_row_Inr:
  assumes "process_row db row s = Inr s'"
  shows "if pair_of row \<notin> processed_pairs s \<and> llcode_of db row \<noteq> None
         then s' = s\<lparr>db_queries := db_queries s @ [field row ''Person Served''],
                      output_data_1 := output_data_1 s @ [out_row_1 db row],
                      output_data_2 := output_data_2 s @ [out_row_2 row],
                      processed_pairs := insert (pair_of row) (processed_pairs s)\<rparr>
         else output_data_1 s' = output_data_1 s \<and> output_data_2 s' = output_data_2 s \<and>
              processed_pairs s' = processed_pairs s"
proof -
  from assms obtain file_no person_served service_type date_of_service address where
    g: "getitem row ''FileNo'' = Inr file_no"
      "getitem row ''Person Served'' = Inr person_served"
      "getitem row ''Service Type'' = Inr service_type"
      "getitem row ''Date of Service'' = Inr date_of_service"
      "getitem row ''Service Street Address'' = Inr address"
    by (rule process_row_columns)
  note f = g [THEN getitem_field]
  obtain m d1 d2 d3 where fd: "fetch_defendants db person_served = (m, d1, d2, d3)"
    by (cases "fetch_defendants db person_served") auto
  show ?thesis
    using assms
    by (auto simp: process_row_def g f fd Let_def pair_of_def llcode_of_def out_row_1_def out_row_2_def
        split: option.splits if_splits sum.splits)
qed

text \<open>What a row without code does: with all its columns present, the step returns.\<close>

lemma process_row_no_code:
  assumes "llcode_of db row = None"
  shows "case process_row db row s of
           Inl e \<Rightarrow> (\<exists>k. e = KeyError k)
         | Inr s' \<Rightarrow> output_data_1 s' = output_data_1 s \<and> output_data_2 s' = output_data_2 s \<and>
                    processed_pairs s' = processed_pairs s"
proof (cases "process_row db row s")
  case (Inr s')
  with process_row_Inr [OF Inr] assms show ?thesis by simp
next
  case (Inl e)
  show ?thesis
  proof (cases "\<exists>a b c d e. getitem row ''FileNo'' = Inr a \<and> getitem row ''Person Served'' = Inr b \<and>
      getitem row ''Service Type'' = Inr c \<and> getitem row ''Date of Service'' = Inr d \<and>
      getitem row ''Service Street Address'' = Inr e")
    case True
    then obtain a b c d e' where g: "getitem row ''FileNo'' = Inr a"
      "getitem row ''Person Served'' = Inr b" "getitem row ''Service Type'' = Inr c"
      "getitem row ''Date of Service'' = Inr d" "getitem row ''Service Street Address'' = Inr e'"
      by blast
    note f = g [THEN getitem_field]
    obtain m d1 d2 d3 where fd: "fetch_defendants db b = (m, d1, d2, d3)"
      by (cases "fetch_defendants db b") auto
    from assms Inl show ?thesis
      by (auto simp: process_row_def g f fd Let_def llcode_of_def
          split: option.splits if_splits sum.splits)
  next
    case False
    with Inl show ?thesis
      by (auto simp: process_row_def getitem_def split: sum.splits option.splits)
  qed
qed


lemma process_row_queries:
  assumes "process_row db row s = Inr s'"
  shows "db_queries s' =
     (if pair_of row \<in> processed_pairs s then db_queries s
      else db_queries s @ [field row ''Person Served''])"
proof -
  from assms obtain file_no person_served service_type date_of_service address where
    g: "getitem row ''FileNo'' = Inr file_no"
      "getitem row ''Person Served'' = Inr person_served"
      "getitem row ''Service Type'' = Inr service_type"
      "getitem row ''Date of Service'' = Inr date_of_service"
      "getitem row ''Service Street Address'' = Inr address"
    by (rule process_row_columns)
  note f = g [THEN getitem_field]
  obtain m d1 d2 d3 where fd: "fetch_defendants db person_served = (m, d1, d2, d3)"
    by (cases "fetch_defendants db person_served") auto
  show ?thesis
    using assms
    by (auto simp: process_row_def g f fd Let_def pair_of_def
        split: option.splits if_splits sum.splits)
qed

lemma process_rows_accepted:
  "process_rows db rows s = Inr s' \<Longrightarrow>
   output_data_1 s' = output_data_1 s @ map (out_row_1 db) (accepted db (processed_pairs s) rows) \<and>
   output_data_2 s' = output_data_2 s @ map out_row_2 (accepted db (processed_pairs s) rows)"
proof (induction rows arbitrary: s)
  case Nil
  then show ?case by simp
next
  case (Cons r rs)
  from Cons.prems obtain s1 where r: "process_row db r s = Inr s1"
    and rs: "process_rows db rs s1 = Inr s'"
    by (auto split: sum.splits)
  note step = process_row_Inr [OF r]
  note ih = Cons.IH [OF rs]
  show ?case
  proof (cases "pair_of r \<notin> processed_pairs s \<and> llcode_of db r \<noteq> None")
    case True
    with step ih show ?thesis by simp
  next
    case False
    with step ih show ?thesis by auto
  qed
qed

lemma yielding_pairs_snoc:
  "yielding_pairs db (pre @ [r]) =
     (if llcode_of db r \<noteq> None then insert (pair_of r) (yielding_pairs db pre)
      else yielding_pairs db pre)"
  by (auto simp: yielding_pairs_def)

lemma first_accepted_here:
  "first_accepted db (pre @ r # rs) (length pre) \<longleftrightarrow>
     pair_of r \<notin> yielding_pairs db pre \<and> llcode_of db r \<noteq> None"
proof -
  have "(\<forall>j<length pre. pair_of ((pre @ r # rs) ! j) = pair_of r \<longrightarrow>
           llcode_of db ((pre @ r # rs) ! j) = None)
        \<longleftrightarrow> (\<forall>j<length pre. pair_of (pre ! j) = pair_of r \<longrightarrow> llcode_of db (pre ! j) = None)"
    by (simp add: nth_append)
  also have "\<dots> \<longleftrightarrow> (\<forall>x\<in>set pre. pair_of x = pair_of r \<longrightarrow> llcode_of db x = None)"
    by (simp add: all_set_conv_all_nth)
  also have "\<dots> \<longleftrightarrow> pair_of r \<notin> yielding_pairs db pre"
    by (auto simp: yielding_pairs_def)
  finally show ?thesis
    unfolding first_accepted_def by auto
qed

lemma accepted_index_from:
  "accepted db (yielding_pairs db pre) rows =
     map ((!) (pre @ rows))
       (filter (first_accepted db (pre @ rows)) [length pre..<length pre + length rows])"
proof (induction rows arbitrary: pre)
  case Nil
  then show ?case by simp
next
  case (Cons r rs)
  have up: "[length pre..<length pre + length (r # rs)] =
            length pre # [length (pre @ [r])..<length (pre @ [r]) + length rs]"
    by (simp add: upt_rec)
  have next_set: "accepted db (yielding_pairs db (pre @ [r])) rs =
      map ((!) (pre @ r # rs))
        (filter (first_accepted db (pre @ r # rs)) [length (pre @ [r])..<length (pre @ [r]) + length rs])"
    using Cons.IH [of "pre @ [r]"] by simp
  show ?case
  proof (cases "pair_of r \<notin> yielding_pairs db pre \<and> llcode_of db r \<noteq> None")
    case True
    then have "accepted db (yielding_pairs db pre) (r # rs) =
        r # accepted db (yielding_pairs db (pre @ [r])) rs"
      by (simp add: yielding_pairs_snoc)
    with True show ?thesis
      unfolding up next_set by (simp add: first_accepted_here)
  next
    case False
    then have "accepted db (yielding_pairs db pre) (r # rs) =
        accepted db (yielding_pairs db (pre @ [r])) rs"
      by (auto simp: yielding_pairs_snoc insert_absorb)
    with False show ?thesis
      unfolding up next_set by (simp add: first_accepted_here)
  qed
qed

lemma accepted_index:
  "accepted db {} rows = map ((!) rows) (filter (first_accepted db rows) [0..<length rows])"
  using accepted_index_from [of db "[]" rows] by (simp add: yielding_pairs_def)

lemma first_accepted_distinct:
  "distinct (map (\<lambda>i. pair_of (rows ! i)) (filter (first_accepted db rows) [0..<length rows]))"
proof -
  have "inj_on (\<lambda>i. pair_of (rows ! i)) {i. first_accepted db rows i}"
  proof (rule inj_onI)
    fix i j
    assume i: "i \<in> {i. first_accepted db rows i}" and j: "j \<in> {i. first_accepted db rows i}"
      and eq: "pair_of (rows ! i) = pair_of (rows ! j)"
    show "i = j"
    proof (rule ccontr)
      assume "i \<noteq> j"
      then consider "i < j" | "j < i" by linarith
      then show False
        using i j eq by cases (auto simp: first_accepted_def)
    qed
  qed
  then have "inj_on (\<lambda>i. pair_of (rows ! i)) (set (filter (first_accepted db rows) [0..<length rows]))"
    by (rule inj_on_subset) auto
  then show ?thesis
    by (simp add: distinct_map)
qed

lemma process_excel_file_Inr:
  assumes "''Document Category'' \<in> set (map strip (columns df))"
    and "snd (process_excel_file db path df) = Inr (out1, out2)"
  shows "out1 = map (out_row_1 db) (accepted db {} (filtered_df df))"
    and "out2 = map out_row_2 (accepted db {} (filtered_df df))"
proof -
  from assms obtain s where run: "process_rows db (filtered_df df) initial_state = Inr s"
    and o: "out1 = output_data_1 s" "out2 = output_data_2 s"
    by (auto simp: process_excel_file_def split: sum.splits)
  from process_rows_accepted [OF run] o
  show "out1 = map (out_row_1 db) (accepted db {} (filtered_df df))"
    and "out2 = map out_row_2 (accepted db {} (filtered_df df))"
    by (simp_all add: initial_state_def)
qed

text \<open>
  C3, amended. In a run of \<open>process_excel_file\<close> that returns, the two lists hold, in file
  order, one row for each kept row of the filtered sheet, and a row is kept exactly when
  it yields a code and no earlier row with the same pair of case id and person served
  yields one. So every pair contributes at most one row to each list: the first of its
  rows that is accepted, which need not be the first of its rows.
\<close>

theorem first_accepted_row_per_pair:
  assumes "''Document Category'' \<in> set (map strip (columns df))"
    and "snd (process_excel_file db path df) = Inr (out1, out2)"
    and "rows = filtered_df df"
    and "kept = filter (first_accepted db rows) [0..<length rows]"
  shows "out1 = map (\<lambda>i. out_row_1 db (rows ! i)) kept \<and>
         out2 = map (\<lambda>i. out_row_2 (rows ! i)) kept \<and>
         distinct (map (\<lambda>i. pair_of (rows ! i)) kept)"
  using process_excel_file_Inr [OF assms(1,2)] assms(3,4)
    first_accepted_distinct [of rows db]
  by (simp add: accepted_index comp_def)


lemmas eval_defs =
  process_excel_file_def filtered_df_def iterrows_def strip_def is_space_def
  initial_state_def process_row_def getitem_def series_get_def field_def
  fetch_defendants_def query_master_def sql_field_def LTRIM_def RTRIM_def
  determine_llcode_def clean_notes_def replace_char_def digit_char_def
  sample_db_def sample_df_def pair_of_def llcode_of_def out_row_1_def out_row_2_def

text \<open>
  C3, as the specification states it, fails: of the rows that share a pair of case id and
  person served, it is not always the first in file order that appears. In \<open>sample_df\<close>
  the first row has the service type X and yields no code, so the pair is not recorded;
  the second row, with the same pair, is the one that both lists hold.
\<close>

theorem later_row_accepted_counterexample:
  "pair_of (filtered_df sample_df ! 0) = pair_of (filtered_df sample_df ! 1) \<and>
   process_excel_file sample_db ''in.xlsx'' sample_df =
     ([], Inr ([[PInt 500, PStr ''XSNG1'', PStr ''John Doe'', PStr ''2024-01-03'',
                 PStr ''2 Side St'', PStr ''N'']],
               [[PInt 109, PStr ''D'', PInt 500, PStr ''XNSRV'', PStr ''MWC'', PStr ''second'',
                 PStr ''#'']]))"
  by (simp add: eval_defs)

theorem first_accepted_row_per_pair_witness:
  "''Document Category'' \<in> set (map strip (columns sample_df)) \<and>
   filter (first_accepted sample_db (filtered_df sample_df)) [0..<length (filtered_df sample_df)] = [1] \<and>
   snd (process_excel_file sample_db ''in.xlsx'' sample_df) =
     Inr ([out_row_1 sample_db (filtered_df sample_df ! 1)], [out_row_2 (filtered_df sample_df ! 1)])"
proof -
  have col: "''Document Category'' \<in> set (map strip (columns sample_df))"
    by (simp add: eval_defs)
  have run: "snd (process_excel_file sample_db ''in.xlsx'' sample_df) =
     Inr ([[PInt 500, PStr ''XSNG1'', PStr ''John Doe'', PStr ''2024-01-03'',
                 PStr ''2 Side St'', PStr ''N'']],
               [[PInt 109, PStr ''D'', PInt 500, PStr ''XNSRV'', PStr ''MWC'', PStr ''second'',
                 PStr ''#'']])"
    by (simp add: eval_defs)
  have len: "length (filtered_df sample_df) = 3"
    by (simp add: eval_defs)
  have kept: "filter (first_accepted sample_db (filtered_df sample_df)) [0..<length (filtered_df sample_df)] = [1]"
    by code_simp
  from first_accepted_row_per_pair [OF col run refl refl] kept col
  show ?thesis
    unfolding run by simp
qed


lemma determine_llcode_None:
  "service_type \<notin> {PStr ''N'', PStr ''S'', PStr ''P''} \<or> person_served \<notin> {d1, d2, d3} \<Longrightarrow>
   determine_llcode service_type person_served d1 d2 d3 = None"
  by (auto simp: determine_llcode_def)

text \<open>
  C2. When the service type of a row is none of N, S and P, or the person served is in
  none of the three slots of the case that the lookup returns, \<open>determine_llcode\<close>
  returns no code, and the step of the loop for that row adds nothing to either list
  (nor to the processed pairs): it returns with both lists as they were, or, when the row
  lacks one of the columns it reads, raises \<open>KeyError\<close>.
\<close>

theorem no_code_no_row:
  assumes "fetch_defendants db (field row ''Person Served'') = (matched_file_no, d1, d2, d3)"
    and "field row ''Service Type'' \<notin> {PStr ''N'', PStr ''S'', PStr ''P''} \<or>
         field row ''Person Served'' \<notin> {d1, d2, d3}"
  shows "determine_llcode (field row ''Service Type'') (field row ''Person Served'') d1 d2 d3 = None \<and>
         (case process_row db row s of
            Inl e \<Rightarrow> (\<exists>k. e = KeyError k)
          | Inr s' \<Rightarrow> output_data_1 s' = output_data_1 s \<and> output_data_2 s' = output_data_2 s \<and>
                     processed_pairs s' = processed_pairs s)"
proof -
  have none: "determine_llcode (field row ''Service Type'') (field row ''Person Served'') d1 d2 d3 = None"
    using assms(2) by (rule determine_llcode_None)
  then have "llcode_of db row = None"
    by (simp add: llcode_of_def assms(1))
  from none process_row_no_code [OF this] show ?thesis by simp
qed

theorem no_code_no_row_witness:
  "fetch_defendants sample_db (field (filtered_df sample_df ! 0) ''Person Served'') =
     (PInt 999, PStr ''John Doe'', PNone, PNone) \<and>
   field (filtered_df sample_df ! 0) ''Service Type'' = PStr ''X'' \<and>
   determine_llcode (PStr ''X'') (PStr ''John Doe'') (PStr ''John Doe'') PNone PNone = None \<and>
   process_row sample_db (filtered_df sample_df ! 0) initial_state =
     Inr (initial_state\<lparr>db_queries := [PStr ''John Doe'']\<rparr>)"
proof -
  have f: "fetch_defendants sample_db (field (filtered_df sample_df ! 0) ''Person Served'') =
     (PInt 999, PStr ''John Doe'', PNone, PNone)"
    by (simp add: eval_defs)
  have t: "field (filtered_df sample_df ! 0) ''Service Type'' \<notin> {PStr ''N'', PStr ''S'', PStr ''P''} \<or>
         field (filtered_df sample_df ! 0) ''Person Served'' \<notin> {PStr ''John Doe'', PNone, PNone}"
    by (simp add: eval_defs)
  have r: "process_row sample_db (filtered_df sample_df ! 0) initial_state =
     Inr (initial_state\<lparr>db_queries := [PStr ''John Doe'']\<rparr>)"
    by (simp add: eval_defs)
  from no_code_no_row [OF f t, of initial_state] f r show ?thesis
    by (simp add: eval_defs)
qed


lemma scan_rows_no_match:
  "\<forall>(f, d1, d2, d3)\<in>set rows. ps \<notin> {d1, d2, d3} \<Longrightarrow>
   scan_rows ps rows = (PNone, PNone, PNone, PNone)"
  by (induction rows) auto

lemma llcode_of_no_match:
  assumes "\<forall>(f, d1, d2, d3)\<in>set (query_master db). ps \<notin> {d1, d2, d3}"
    and "field row ''Person Served'' = ps"
  shows "llcode_of db row = None"
  using scan_rows_no_match [OF assms(1)] assms(2)
  by (simp add: llcode_of_def fetch_defendants_def)

lemma process_row_unmatched:
  assumes nm: "\<forall>(f, d1, d2, d3)\<in>set (query_master db). ps \<notin> {d1, d2, d3}"
    and fresh: "\<forall>f. (f, ps) \<notin> processed_pairs s"
    and run: "process_row db row s = Inr s1"
  shows "(\<forall>f. (f, ps) \<notin> processed_pairs s1) \<and>
         (field row ''Person Served'' = ps \<longrightarrow> s1 = s\<lparr>db_queries := db_queries s @ [ps]\<rparr>) \<and>
         count_list (db_queries s1) ps =
           count_list (db_queries s) ps + (if field row ''Person Served'' = ps then 1 else 0)"
proof (cases "field row ''Person Served'' = ps")
  case True
  then have none: "llcode_of db row = None"
    using nm by (simp add: llcode_of_no_match)
  have notin: "pair_of row \<notin> processed_pairs s"
    using fresh True by (simp add: pair_of_def)
  from process_row_Inr [OF run] none
  have same: "output_data_1 s1 = output_data_1 s" "output_data_2 s1 = output_data_2 s"
    "processed_pairs s1 = processed_pairs s"
    by simp_all
  from process_row_queries [OF run] notin True
  have q: "db_queries s1 = db_queries s @ [ps]" by simp
  have "s1 = s\<lparr>db_queries := db_queries s @ [ps]\<rparr>"
    using same q by (cases s, cases s1) simp
  with True fresh same q show ?thesis by simp
next
  case False
  have "processed_pairs s1 \<subseteq> insert (pair_of row) (processed_pairs s)"
    using process_row_Inr [OF run] by (auto split: if_splits)
  moreover have "snd (pair_of row) \<noteq> ps"
    using False by (simp add: pair_of_def)
  ultimately have "\<forall>f. (f, ps) \<notin> processed_pairs s1"
  proof (intro allI notI)
    fix f
    assume sub: "processed_pairs s1 \<subseteq> insert (pair_of row) (processed_pairs s)"
      and ne: "snd (pair_of row) \<noteq> ps" and "(f, ps) \<in> processed_pairs s1"
    then have "(f, ps) = pair_of row \<or> (f, ps) \<in> processed_pairs s" by auto
    then show False
    proof
      assume "(f, ps) = pair_of row"
      then have "snd (pair_of row) = ps" by (metis snd_conv)
      with ne show False by simp
    next
      assume "(f, ps) \<in> processed_pairs s"
      with fresh show False by simp
    qed
  qed
  moreover have "count_list (db_queries s1) ps = count_list (db_queries s) ps"
    using process_row_queries [OF run] False by (simp split: if_splits)
  ultimately show ?thesis using False by simp
qed

text \<open>
  C4. Let no case returned by the query name the person \<open>ps\<close>, and let no pair with \<open>ps\<close>
  be among the processed pairs. Then the step for a row with that person served changes
  nothing but the record of the lookups: the row is skipped and its pair is not added to
  the processed pairs. So over any rows that follow, no pair with \<open>ps\<close> is ever added,
  and the database is queried again for every row with that person served, duplicates of
  an earlier row included.
\<close>

theorem unmatched_rows_looked_up_again:
  assumes "\<forall>(f, d1, d2, d3)\<in>set (query_master db). ps \<notin> {d1, d2, d3}"
    and "\<forall>f. (f, ps) \<notin> processed_pairs s"
  shows "(field row ''Person Served'' = ps \<and> process_row db row s = Inr s1 \<longrightarrow>
            s1 = s\<lparr>db_queries := db_queries s @ [ps]\<rparr>) \<and>
         (process_rows db rows s = Inr s' \<longrightarrow>
            (\<forall>f. (f, ps) \<notin> processed_pairs s') \<and>
            count_list (db_queries s') ps =
              count_list (db_queries s) ps +
              length (filter (\<lambda>r. field r ''Person Served'' = ps) rows))"
proof
  show "field row ''Person Served'' = ps \<and> process_row db row s = Inr s1 \<longrightarrow>
            s1 = s\<lparr>db_queries := db_queries s @ [ps]\<rparr>"
    using process_row_unmatched [OF assms, of row s1] by blast
  show "process_rows db rows s = Inr s' \<longrightarrow>
            (\<forall>f. (f, ps) \<notin> processed_pairs s') \<and>
            count_list (db_queries s') ps =
              count_list (db_queries s) ps +
              length (filter (\<lambda>r. field r ''Person Served'' = ps) rows)"
    using assms(2)
  proof (induction rows arbitrary: s)
    case Nil
    then show ?case by auto
  next
    case (Cons r rs)
    show ?case
    proof
      assume "process_rows db (r # rs) s = Inr s'"
      then obtain s1 where r: "process_row db r s = Inr s1"
        and rs: "process_rows db rs s1 = Inr s'"
        by (auto split: sum.splits)
      note step = process_row_unmatched [OF assms(1) Cons.prems r]
      from step have fresh1: "\<forall>f. (f, ps) \<notin> processed_pairs s1" by blast
      from Cons.IH [OF fresh1] rs step
      show "(\<forall>f. (f, ps) \<notin> processed_pairs s') \<and>
            count_list (db_queries s') ps =
              count_list (db_queries s) ps +
              length (filter (\<lambda>r. field r ''Person Served'' = ps) (r # rs))"
        by simp
    qed
  qed
qed

theorem unmatched_rows_looked_up_again_witness:
  "process_row sample_db unmatched_row initial_state =
     Inr (initial_state\<lparr>db_queries := [PStr ''Richard Roe'']\<rparr>) \<and>
   process_rows sample_db [unmatched_row, unmatched_row] initial_state =
     Inr (initial_state\<lparr>db_queries := [PStr ''Richard Roe'', PStr ''Richard Roe'']\<rparr>)"
proof -
  have nm: "\<forall>(f, d1, d2, d3)\<in>set (query_master sample_db). PStr ''Richard Roe'' \<notin> {d1, d2, d3}"
    by (simp add: eval_defs)
  have fresh: "\<forall>f. (f, PStr ''Richard Roe'') \<notin> processed_pairs initial_state"
    by (simp add: initial_state_def)
  have one: "process_row sample_db unmatched_row initial_state =
     Inr (initial_state\<lparr>db_queries := [PStr ''Richard Roe'']\<rparr>)"
    by (simp add: eval_defs unmatched_row_def)
  have two: "process_rows sample_db [unmatched_row, unmatched_row] initial_state =
     Inr (initial_state\<lparr>db_queries := [PStr ''Richard Roe'', PStr ''Richard Roe'']\<rparr>)"
    by (simp add: eval_defs unmatched_row_def)
  from unmatched_rows_looked_up_again [OF nm fresh, of unmatched_row _ "[unmatched_row, unmatched_row]"]
    one two
  show ?thesis by simp
qed

lemma filtered_df_summons_only: "filtered_df (summons_only df) = filtered_df df"
  by (simp add: filtered_df_def summons_only_def iterrows_def filter_map comp_def)

lemma filtered_df_summons_rows: "filtered_df df = summons_rows df"
  by (simp add: filtered_df_def summons_rows_def iterrows_def filter_map comp_def Let_def)

text \<open>
  C7. On a sheet without a column that is named \<open>Document Category\<close> once the headers are
  stripped, \<open>process_excel_file\<close> prints the message of line 80 and returns two empty
  lists, raising nothing. On a sheet that has the column (its stripped headers being
  distinct), it prints nothing and runs the loop over exactly the rows whose
  \<open>Document Category\<close> is \<open>Summons and Complaint\<close>, in file order: its result is that of
  the loop over these rows, no other row has any part in it, and when it returns, the
  two lists hold the output rows of the rows accepted among these.
\<close>

theorem document_category_gate:
  "(''Document Category'' \<notin> set (map strip (columns df)) \<longrightarrow>
      process_excel_file db input_excel_path df =
        ([missing_column_message input_excel_path], Inr ([], []))) \<and>
   (''Document Category'' \<in> set (map strip (columns df)) \<and> distinct (map strip (columns df)) \<longrightarrow>
      process_excel_file db input_excel_path df =
        ([], case process_rows db (summons_rows df) initial_state of
               Inl e \<Rightarrow> Inl e
             | Inr s \<Rightarrow> Inr (output_data_1 s, output_data_2 s)) \<and>
      process_excel_file db input_excel_path (summons_only df) =
        process_excel_file db input_excel_path df \<and>
      (\<forall>out1 out2. snd (process_excel_file db input_excel_path df) = Inr (out1, out2) \<longrightarrow>
         out1 = map (out_row_1 db) (accepted db {} (summons_rows df)) \<and>
         out2 = map out_row_2 (accepted db {} (summons_rows df))))"
proof (intro conjI impI allI)
  assume "''Document Category'' \<notin> set (map strip (columns df))"
  then show "process_excel_file db input_excel_path df =
        ([missing_column_message input_excel_path], Inr ([], []))"
    by (simp add: process_excel_file_def)
next
  assume "''Document Category'' \<in> set (map strip (columns df)) \<and> distinct (map strip (columns df))"
  then show "process_excel_file db input_excel_path df =
        ([], case process_rows db (summons_rows df) initial_state of
               Inl e \<Rightarrow> Inl e
             | Inr s \<Rightarrow> Inr (output_data_1 s, output_data_2 s))"
    by (simp add: process_excel_file_def filtered_df_summons_rows)
next
  assume "''Document Category'' \<in> set (map strip (columns df)) \<and> distinct (map strip (columns df))"
  then have "''Document Category'' \<in> set (map strip (columns (summons_only df)))"
    by (simp add: summons_only_def)
  then show "process_excel_file db input_excel_path (summons_only df) =
        process_excel_file db input_excel_path df"
    by (simp add: process_excel_file_def filtered_df_summons_only)
       (simp add: summons_only_def)
next
  fix out1 out2
  assume col: "''Document Category'' \<in> set (map strip (columns df)) \<and> distinct (map strip (columns df))"
    and run: "snd (process_excel_file db input_excel_path df) = Inr (out1, out2)"
  from col have c: "''Document Category'' \<in> set (map strip (columns df))" by simp
  from process_excel_file_Inr [OF c run]
  show "out1 = map (out_row_1 db) (accepted db {} (summons_rows df))"
    and "out2 = map out_row_2 (accepted db {} (summons_rows df))"
    by (simp_all add: filtered_df_summons_rows)
qed

theorem document_category_gate_witness:
  "process_excel_file sample_db ''in.xlsx'' uncategorised_df =
     ([[CHR 0x27] @ ''Document Category'' @ [CHR 0x27] @ '' column missing in in.xlsx''], Inr ([], [])) \<and>
   strip (''Document Category'' @ [CHR 0xA0]) = ''Document Category'' \<and>
   map (\<lambda>row. map_of row ''FileNo'') (summons_rows mixed_df) = [Some (PInt 42)] \<and>
   process_excel_file sample_db ''in.xlsx'' mixed_df =
     ([], Inr ([[PInt 42, PStr ''XPS1'', PStr ''John Doe'', PStr ''2024-03-02'', PStr ''5 Low Rd'',
                 PStr ''P'']],
               [[PInt 109, PStr ''D'', PInt 42, PStr ''XNSRV'', PStr ''MWC'', PStr ''left at door'',
                 PStr ''#'']])) \<and>
   process_excel_file sample_db ''in.xlsx'' (summons_only mixed_df) =
     process_excel_file sample_db ''in.xlsx'' mixed_df"
proof -
  have missing: "''Document Category'' \<notin> set (map strip (columns uncategorised_df))"
    by (simp add: uncategorised_df_def strip_def is_space_def)
  have present: "''Document Category'' \<in> set (map strip (columns mixed_df)) \<and>
      distinct (map strip (columns mixed_df))"
    by (simp add: mixed_df_def strip_def is_space_def)
  have s: "strip (''Document Category'' @ [CHR 0xA0]) = ''Document Category''"
    by (simp add: strip_def is_space_def)
  have rows: "summons_rows mixed_df =
      [[(''FileNo'', PInt 42), (''Person Served'', PStr ''John Doe''), (''Service Type'', PStr ''P''),
        (''Date of Service'', PStr ''2024-03-02''), (''Service Street Address'', PStr ''5 Low Rd''),
        (''Note'', PStr ''left at door''), (''Document Category'', PStr ''Summons and Complaint'')]]"
    by (simp add: summons_rows_def mixed_df_def strip_def is_space_def)
  note gate = document_category_gate [of uncategorised_df sample_db "''in.xlsx''"]
  note gate' = document_category_gate [of mixed_df sample_db "''in.xlsx''"]
  from gate missing
  have a: "process_excel_file sample_db ''in.xlsx'' uncategorised_df =
     ([[CHR 0x27] @ ''Document Category'' @ [CHR 0x27] @ '' column missing in in.xlsx''], Inr ([], []))"
    by (simp add: missing_column_message_def)
  from gate' present
  have "process_excel_file sample_db ''in.xlsx'' mixed_df =
        ([], case process_rows sample_db (summons_rows mixed_df) initial_state of
               Inl e \<Rightarrow> Inl e
             | Inr s \<Rightarrow> Inr (output_data_1 s, output_data_2 s))"
    by blast
  then have b: "process_excel_file sample_db ''in.xlsx'' mixed_df =
     ([], Inr ([[PInt 42, PStr ''XPS1'', PStr ''John Doe'', PStr ''2024-03-02'', PStr ''5 Low Rd'',
                 PStr ''P'']],
               [[PInt 109, PStr ''D'', PInt 42, PStr ''XNSRV'', PStr ''MWC'', PStr ''left at door'',
                 PStr ''#'']]))"
    unfolding rows by (simp add: eval_defs)
  from gate' present
  have c: "process_excel_file sample_db ''in.xlsx'' (summons_only mixed_df) =
     process_excel_file sample_db ''in.xlsx'' mixed_df"
    by blast
  have r: "map (\<lambda>row. map_of row ''FileNo'') (summons_rows mixed_df) = [Some (PInt 42)]"
    unfolding rows by simp
  from a s r b c show ?thesis by (intro conjI)
qed

lemma accepted_subseq: "subseq (accepted db P rows) rows"
  by (induction rows arbitrary: P) auto

lemma accepted_yield: "row \<in> set (accepted db P rows) \<Longrightarrow> llcode_of db row \<noteq> None"
  by (induction rows arbitrary: P) (auto split: if_splits)

lemma scan_rows_used:
  assumes "list_all2 (\<lambda>x y. truthy (fst x) = truthy (fst y) \<and> snd x = snd y) q q'"
  shows "truthy (fst (scan_rows ps q)) = truthy (fst (scan_rows ps q')) \<and>
         snd (scan_rows ps q) = snd (scan_rows ps q')"
  using assms
proof (induction q q' rule: list_all2_induct)
  case Nil
  then show ?case by simp
next
  case (Cons x xs y ys)
  obtain m d1 d2 d3 where x: "x = (m, d1, d2, d3)" by (cases x)
  obtain m' e1 e2 e3 where y: "y = (m', e1, e2, e3)" by (cases y)
  from Cons.hyps(1) have "truthy m = truthy m'" "d1 = e1" "d2 = e2" "d3 = e3"
    by (simp_all add: x y)
  with Cons.IH show ?case
    by (simp add: x y)
qed

lemma query_master_used:
  assumes "map used_of_row db = map used_of_row db'"
  shows "list_all2 (\<lambda>x y. truthy (fst x) = truthy (fst y) \<and> snd x = snd y)
           (query_master db) (query_master db')"
  using assms
proof (induction db arbitrary: db')
  case Nil
  then show ?case by (simp add: query_master_def)
next
  case (Cons r db)
  then obtain r' db'' where db': "db' = r' # db''" and r: "used_of_row r = used_of_row r'"
    and rest: "map used_of_row db = map used_of_row db''"
    by (cases db') auto
  from r have same: "truthy (FileNo r) = truthy (FileNo r')" "DEFENDANT_1 r = DEFENDANT_1 r'"
    "DEFENDANT_2 r = DEFENDANT_2 r'" "DEFENDANT_3 r = DEFENDANT_3 r'"
    by (simp_all add: used_of_row_def)
  from Cons.IH [OF rest] have ih: "list_all2 (\<lambda>x y. truthy (fst x) = truthy (fst y) \<and> snd x = snd y)
           (query_master db) (query_master db'')" .
  have unf: "\<And>r t. query_master (r # t) =
      (if DEFENDANT_1 r \<noteq> None \<or> DEFENDANT_2 r \<noteq> None \<or> DEFENDANT_3 r \<noteq> None
       then (FileNo r, sql_field (DEFENDANT_1 r), sql_field (DEFENDANT_2 r),
               sql_field (DEFENDANT_3 r)) # query_master t else query_master t)"
    by (simp add: query_master_def)
  show ?case
    unfolding db' unf using ih same by simp
qed

lemma fetch_defendants_used:
  assumes "map used_of_row db = map used_of_row db'"
  obtains m m' d1 d2 d3 where "fetch_defendants db ps = (m, d1, d2, d3)"
    "fetch_defendants db' ps = (m', d1, d2, d3)" "truthy m = truthy m'"
proof -
  from scan_rows_used [OF query_master_used [OF assms], of ps]
  have *: "truthy (fst (fetch_defendants db ps)) = truthy (fst (fetch_defendants db' ps))"
    "snd (fetch_defendants db ps) = snd (fetch_defendants db' ps)"
    by (simp_all add: fetch_defendants_def)
  obtain m d1 d2 d3 where a: "fetch_defendants db ps = (m, d1, d2, d3)"
    by (cases "fetch_defendants db ps")
  obtain m' e1 e2 e3 where b: "fetch_defendants db' ps = (m', e1, e2, e3)"
    by (cases "fetch_defendants db' ps")
  from * a b have "truthy m = truthy m'" "e1 = d1" "e2 = d2" "e3 = d3" by simp_all
  with a b that show thesis by blast
qed

lemma process_row_used:
  assumes "map used_of_row db = map used_of_row db'"
  shows "process_row db row s = process_row db' row s"
proof (cases "getitem row ''FileNo''")
  case Inl
  then show ?thesis by (simp add: process_row_def)
next
  case g1: (Inr a)
  show ?thesis
  proof (cases "getitem row ''Person Served''")
    case Inl
    then show ?thesis by (simp add: process_row_def g1)
  next
    case g2: (Inr b)
    obtain m m' d1 d2 d3 where key: "fetch_defendants db b = (m, d1, d2, d3)"
      "fetch_defendants db' b = (m', d1, d2, d3)" "truthy m = truthy m'"
      by (rule fetch_defendants_used [OF assms])
    show ?thesis
    proof (cases "getitem row ''Service Type''")
      case Inl
      then show ?thesis by (simp add: process_row_def g1 g2)
    next
      case g3: (Inr c)
      show ?thesis
      proof (cases "getitem row ''Date of Service''")
        case Inl
        then show ?thesis by (simp add: process_row_def g1 g2 g3)
      next
        case g4: (Inr d)
        show ?thesis
        proof (cases "getitem row ''Service Street Address''")
          case Inl
          then show ?thesis by (simp add: process_row_def g1 g2 g3 g4)
        next
          case g5: (Inr e)
          show ?thesis
            by (simp add: process_row_def g1 g2 g3 g4 g5 key Let_def)
        qed
      qed
    qed
  qed
qed

lemma process_rows_used:
  assumes "map used_of_row db = map used_of_row db'"
  shows "process_rows db rows s = process_rows db' rows s"
  by (induction rows arbitrary: s) (simp_all add: process_row_used [OF assms] split: sum.splits)

text \<open>
  C10. In a run that returns, the rows of the two lists come, in order, from rows of the
  filtered sheet that yield a code, and the case id of each output row (element 0 in the
  first list, element 2 in the second) is the \<open>FileNo\<close> cell of its sheet row. The \<open>FileNo\<close>
  of the matched case is used for its truth value only: two tables that agree on the
  defendants and on which \<open>FileNo\<close> is true give the same result, whatever the identifiers
  are. In the sample the sheet says 500 and the database 999, and 500 is what comes out.
\<close>

theorem sheet_file_no_in_outputs:
  "(''Document Category'' \<in> set (map strip (columns df)) \<and>
    snd (process_excel_file db input_excel_path df) = Inr (out1, out2) \<longrightarrow>
      (\<exists>acc. subseq acc (filtered_df df) \<and> (\<forall>row\<in>set acc. llcode_of db row \<noteq> None) \<and>
         out1 = map (out_row_1 db) acc \<and> out2 = map out_row_2 acc \<and>
         map (\<lambda>r. r ! 0) out1 = map (\<lambda>row. field row ''FileNo'') acc \<and>
         map (\<lambda>r. r ! 2) out2 = map (\<lambda>row. field row ''FileNo'') acc)) \<and>
   (map used_of_row db = map used_of_row db' \<longrightarrow>
      process_excel_file db input_excel_path df = process_excel_file db' input_excel_path df)"
proof (intro conjI impI)
  assume a: "''Document Category'' \<in> set (map strip (columns df)) \<and>
    snd (process_excel_file db input_excel_path df) = Inr (out1, out2)"
  let ?acc = "accepted db {} (filtered_df df)"
  from a have o: "out1 = map (out_row_1 db) ?acc" "out2 = map out_row_2 ?acc"
    using process_excel_file_Inr [of df db input_excel_path out1 out2] by simp_all
  have s: "subseq ?acc (filtered_df df)" by (rule accepted_subseq)
  have y: "\<forall>row\<in>set ?acc. llcode_of db row \<noteq> None"
    using accepted_yield by blast
  have f1: "map (\<lambda>r. r ! 0) out1 = map (\<lambda>row. field row ''FileNo'') ?acc"
    unfolding o by (simp add: out_row_1_def)
  have f2: "map (\<lambda>r. r ! 2) out2 = map (\<lambda>row. field row ''FileNo'') ?acc"
    unfolding o by (simp add: out_row_2_def)
  show "\<exists>acc. subseq acc (filtered_df df) \<and> (\<forall>row\<in>set acc. llcode_of db row \<noteq> None) \<and>
         out1 = map (out_row_1 db) acc \<and> out2 = map out_row_2 acc \<and>
         map (\<lambda>r. r ! 0) out1 = map (\<lambda>row. field row ''FileNo'') acc \<and>
         map (\<lambda>r. r ! 2) out2 = map (\<lambda>row. field row ''FileNo'') acc"
    by (rule exI [of _ ?acc]) (intro conjI s y o f1 f2)
next
  assume "map used_of_row db = map used_of_row db'"
  from process_rows_used [OF this]
  show "process_excel_file db input_excel_path df = process_excel_file db' input_excel_path df"
    unfolding process_excel_file_def by simp
qed

theorem sheet_file_no_in_outputs_witness:
  "map (FileNo) sample_db = [PInt 999] \<and>
   snd (process_excel_file sample_db ''in.xlsx'' sample_df) =
     Inr ([[PInt 500, PStr ''XSNG1'', PStr ''John Doe'', PStr ''2024-01-03'',
            PStr ''2 Side St'', PStr ''N'']],
          [[PInt 109, PStr ''D'', PInt 500, PStr ''XNSRV'', PStr ''MWC'', PStr ''second'',
            PStr ''#'']]) \<and>
   (\<exists>acc. subseq acc (filtered_df sample_df) \<and>
      map (\<lambda>row. field row ''FileNo'') acc = [PInt 500]) \<and>
   process_excel_file sample_db ''in.xlsx'' sample_df =
     process_excel_file (map (\<lambda>r. r\<lparr>FileNo := PStr ''A-1''\<rparr>) sample_db) ''in.xlsx'' sample_df"
proof -
  have col: "''Document Category'' \<in> set (map strip (columns sample_df))"
    by (simp add: eval_defs)
  have run: "snd (process_excel_file sample_db ''in.xlsx'' sample_df) =
     Inr ([[PInt 500, PStr ''XSNG1'', PStr ''John Doe'', PStr ''2024-01-03'',
            PStr ''2 Side St'', PStr ''N'']],
          [[PInt 109, PStr ''D'', PInt 500, PStr ''XNSRV'', PStr ''MWC'', PStr ''second'',
            PStr ''#'']])"
    by (simp add: eval_defs)
  have used: "map used_of_row sample_db =
      map used_of_row (map (\<lambda>r. r\<lparr>FileNo := PStr ''A-1''\<rparr>) sample_db)"
    by (simp add: sample_db_def used_of_row_def)
  note inst = sheet_file_no_in_outputs [of sample_df sample_db "''in.xlsx''" _ _
      "map (\<lambda>r. r\<lparr>FileNo := PStr ''A-1''\<rparr>) sample_db"]
  from inst col run obtain acc where "subseq acc (filtered_df sample_df)"
    "[PInt 500] = map (\<lambda>row. field row ''FileNo'') acc"
    by fastforce
  moreover from inst used have "process_excel_file sample_db ''in.xlsx'' sample_df =
     process_excel_file (map (\<lambda>r. r\<lparr>FileNo := PStr ''A-1''\<rparr>) sample_db) ''in.xlsx'' sample_df"
    by blast
  moreover have "map (FileNo) sample_db = [PInt 999]"
    by (simp add: sample_db_def)
  ultimately show ?thesis using run by auto
qed

section \<open>Properties of the lookup\<close>

lemma query_master_Cons:
  "query_master (r # t) =
     (if DEFENDANT_1 r \<noteq> None \<or> DEFENDANT_2 r \<noteq> None \<or> DEFENDANT_3 r \<noteq> None
      then (FileNo r, sql_field (DEFENDANT_1 r), sql_field (DEFENDANT_2 r),
            sql_field (DEFENDANT_3 r)) # query_master t
      else query_master t)"
  by (simp add: query_master_def)

lemma scan_rows_first:
  "\<forall>(f, e1, e2, e3)\<in>set pre. ps \<notin> {e1, e2, e3} \<Longrightarrow> ps \<in> {d1, d2, d3} \<Longrightarrow>
   scan_rows ps (pre @ (file_no, d1, d2, d3) # post) = (file_no, d1, d2, d3)"
  by (induction pre) auto

lemma sql_field_PStr: "sql_field d = PStr n \<Longrightarrow> d \<noteq> None"
  by (cases d) (simp_all add: sql_field_def)

lemma fetch_defendants_skip:
  "\<forall>x\<in>set pre. PStr name \<notin> set (trimmed_slots x) \<Longrightarrow>
   fetch_defendants (pre @ rest) (PStr name) = fetch_defendants rest (PStr name)"
proof (induction pre)
  case Nil
  then show ?case by simp
next
  case (Cons x pre)
  then have x: "PStr name \<notin> set (trimmed_slots x)"
    and ih: "fetch_defendants (pre @ rest) (PStr name) = fetch_defendants rest (PStr name)"
    by simp_all
  from x ih show ?case
    by (simp add: fetch_defendants_def query_master_Cons trimmed_slots_def)
qed

lemma fetch_defendants_here:
  assumes "PStr name \<in> set (trimmed_slots r)"
  shows "fetch_defendants (r # post) (PStr name) =
     (FileNo r, sql_field (DEFENDANT_1 r), sql_field (DEFENDANT_2 r), sql_field (DEFENDANT_3 r))"
proof -
  from assms have "DEFENDANT_1 r \<noteq> None \<or> DEFENDANT_2 r \<noteq> None \<or> DEFENDANT_3 r \<noteq> None"
    unfolding trimmed_slots_def using sql_field_PStr by (metis empty_iff empty_set set_ConsD)
  with assms show ?thesis
    by (simp add: fetch_defendants_def query_master_Cons trimmed_slots_def)
qed

text \<open>
  C6, as the specification states it, fails: the defendant below is the name with a tab
  before it, so trimmed of the whitespace around it the slot is exactly the name. The
  query trims with \<open>LTRIM\<close> and \<open>RTRIM\<close>, which take away spaces only; the tab stays,
  the slot is not the name, and the lookup finds no case.
\<close>

theorem tab_padded_defendant_counterexample:
  "strip ([CHR 0x09] @ ''Jane Doe'') = ''Jane Doe'' \<and>
   fetch_defendants
     [\<lparr>FileNo = PInt 5, DEFENDANT_1 = Some ([CHR 0x09] @ ''Jane Doe''), DEFENDANT_2 = None,
       DEFENDANT_3 = None\<rparr>]
     (PStr ''Jane Doe'') = (PNone, PNone, PNone, PNone)"
  by (simp add: strip_def is_space_def fetch_defendants_def query_master_def sql_field_def
      LTRIM_def RTRIM_def)

text \<open>
  C6, amended. \<open>fetch_defendants\<close> returns the sentinel of four \<open>None\<close> when no fetched row
  has the person served in one of its slots (so also when the query returns no rows), and
  otherwise the first fetched row, in the order of the database, that has. For a name,
  in terms of the table itself: the result is the first row of the table one of whose
  defendants, trimmed of the spaces (character 32) around it and of no other whitespace,
  is exactly the name, returned with its case id and its three trimmed defendants; and
  the sentinel when the table has no such row.
\<close>

theorem fetch_defendants_first_match:
  "((\<forall>(f, e1, e2, e3)\<in>set (query_master tbl). person_served \<notin> {e1, e2, e3}) \<longrightarrow>
      fetch_defendants tbl person_served = (PNone, PNone, PNone, PNone)) \<and>
   (query_master tbl = pre @ (file_no, d1, d2, d3) # post \<and> person_served \<in> {d1, d2, d3} \<and>
    (\<forall>(f, e1, e2, e3)\<in>set pre. person_served \<notin> {e1, e2, e3}) \<longrightarrow>
      fetch_defendants tbl person_served = (file_no, d1, d2, d3)) \<and>
   ((\<forall>r\<in>set tbl. PStr name \<notin> set (trimmed_slots r)) \<longrightarrow>
      fetch_defendants tbl (PStr name) = (PNone, PNone, PNone, PNone)) \<and>
   (tbl = before @ r # after \<and> PStr name \<in> set (trimmed_slots r) \<and>
    (\<forall>x\<in>set before. PStr name \<notin> set (trimmed_slots x)) \<longrightarrow>
      fetch_defendants tbl (PStr name) =
        (FileNo r, sql_field (DEFENDANT_1 r), sql_field (DEFENDANT_2 r),
         sql_field (DEFENDANT_3 r)))"
proof (intro conjI impI)
  assume "\<forall>(f, e1, e2, e3)\<in>set (query_master tbl). person_served \<notin> {e1, e2, e3}"
  then show "fetch_defendants tbl person_served = (PNone, PNone, PNone, PNone)"
    unfolding fetch_defendants_def by (rule scan_rows_no_match)
next
  assume "query_master tbl = pre @ (file_no, d1, d2, d3) # post \<and> person_served \<in> {d1, d2, d3} \<and>
    (\<forall>(f, e1, e2, e3)\<in>set pre. person_served \<notin> {e1, e2, e3})"
  then show "fetch_defendants tbl person_served = (file_no, d1, d2, d3)"
    unfolding fetch_defendants_def by (simp add: scan_rows_first)
next
  assume "\<forall>r\<in>set tbl. PStr name \<notin> set (trimmed_slots r)"
  then have "fetch_defendants (tbl @ []) (PStr name) = fetch_defendants [] (PStr name)"
    by (rule fetch_defendants_skip)
  then show "fetch_defendants tbl (PStr name) = (PNone, PNone, PNone, PNone)"
    by (simp add: fetch_defendants_def query_master_def)
next
  assume a: "tbl = before @ r # after \<and> PStr name \<in> set (trimmed_slots r) \<and>
    (\<forall>x\<in>set before. PStr name \<notin> set (trimmed_slots x))"
  then have "fetch_defendants tbl (PStr name) = fetch_defendants (r # after) (PStr name)"
    by (simp add: fetch_defendants_skip)
  with a show "fetch_defendants tbl (PStr name) =
        (FileNo r, sql_field (DEFENDANT_1 r), sql_field (DEFENDANT_2 r),
         sql_field (DEFENDANT_3 r))"
    by (simp add: fetch_defendants_here)
qed

theorem fetch_defendants_first_match_witness:
  "fetch_defendants sample_master (PStr ''Jane Doe'') = (PInt 3, PStr ''Ann Poe'', PStr ''Jane Doe'', PNone) \<and>
   fetch_defendants sample_master (PStr ''Richard Roe'') = (PNone, PNone, PNone, PNone) \<and>
   query_master [sample_master ! 0] = [] \<and>
   fetch_defendants [sample_master ! 0] (PStr ''Jane Doe'') = (PNone, PNone, PNone, PNone)"
proof -
  have split: "sample_master = [sample_master ! 0, sample_master ! 1] @ sample_master ! 2 # [sample_master ! 3]"
    by (simp add: sample_master_def)
  have here: "PStr ''Jane Doe'' \<in> set (trimmed_slots (sample_master ! 2))"
    by (simp add: sample_master_def trimmed_slots_def sql_field_def LTRIM_def RTRIM_def)
  have before: "\<forall>x\<in>set [sample_master ! 0, sample_master ! 1]. PStr ''Jane Doe'' \<notin> set (trimmed_slots x)"
    by (simp add: sample_master_def trimmed_slots_def sql_field_def LTRIM_def RTRIM_def)
  have none: "\<forall>r\<in>set sample_master. PStr ''Richard Roe'' \<notin> set (trimmed_slots r)"
    by (simp add: sample_master_def trimmed_slots_def sql_field_def LTRIM_def RTRIM_def)
  have empty: "query_master [sample_master ! 0] = []"
    by (simp add: sample_master_def query_master_def)
  then have norows: "\<forall>(f, e1, e2, e3)\<in>set (query_master [sample_master ! 0]). PStr ''Jane Doe'' \<notin> {e1, e2, e3}"
    by simp
  from fetch_defendants_first_match [of sample_master "PStr ''Jane Doe''" "[]" PNone PNone PNone PNone "[]"
      "''Jane Doe''" "[sample_master ! 0, sample_master ! 1]" "sample_master ! 2" "[sample_master ! 3]"]
    split here before
  have a: "fetch_defendants sample_master (PStr ''Jane Doe'') =
      (PInt 3, PStr ''Ann Poe'', PStr ''Jane Doe'', PNone)"
    by (simp add: sample_master_def sql_field_def LTRIM_def RTRIM_def)
  from fetch_defendants_first_match [of sample_master "PStr ''Jane Doe''" "[]" PNone PNone PNone PNone "[]"
      "''Richard Roe''"] none
  have b: "fetch_defendants sample_master (PStr ''Richard Roe'') = (PNone, PNone, PNone, PNone)"
    by blast
  from fetch_defendants_first_match [of "[sample_master ! 0]" "PStr ''Jane Doe''"] norows
  have c: "fetch_defendants [sample_master ! 0] (PStr ''Jane Doe'') = (PNone, PNone, PNone, PNone)"
    by blast
  from a b c empty show ?thesis by simp
qed

section \<open>Properties of the tag file\<close>

lemma split_char_nonempty: "split_char sep s \<noteq> []"
  by (induction s) (auto split: list.splits)

lemma split_char_first: "split_char sep s ! 0 = takeWhile (\<lambda>c. c \<noteq> sep) s"
proof (induction s)
  case Nil
  then show ?case by simp
next
  case (Cons c cs)
  then show ?case
    using split_char_nonempty [of sep cs] by (auto split: list.splits)
qed

lemma tagged_pdf_iff:
  "tagged_pdf filename \<longleftrightarrow>
     suffix ''.pdf'' (lower filename) \<and> sublist ''judgment'' (lower filename) \<and>
     isdigit (split_char (CHR ''_'') filename ! 0)"
  by (simp add: tagged_pdf_def isdigit_def digit_chars_def split_char_first case_prefix_def)

lemma tag_line_no_newline:
  assumes "tagged_pdf f"
  shows "CHR 0x0A \<notin> set (tag_line f)"
proof -
  from assms have digits:
    "\<forall>c\<in>set (case_prefix f). c \<in> set (''0123456789'' @ [CHR 0xB2, CHR 0xB3, CHR 0xB9])"
    unfolding tagged_pdf_def by (elim conjE)
  have "CHR 0x0A \<notin> set (''0123456789'' @ [CHR 0xB2, CHR 0xB3, CHR 0xB9])" by simp
  with digits have "CHR 0x0A \<notin> set (case_prefix f)" by blast
  then show ?thesis by (simp add: tag_line_def)
qed

lemma split_char_line:
  "sep \<notin> set l \<Longrightarrow> split_char sep (l @ sep # rest) = l # split_char sep rest"
proof (induction l)
  case Nil
  then show ?case by simp
next
  case (Cons c l)
  then have "c \<noteq> sep" and "split_char sep (l @ sep # rest) = l # split_char sep rest"
    by auto
  then show ?case by simp
qed

lemma split_char_lines:
  "\<forall>l\<in>set ls. sep \<notin> set l \<Longrightarrow>
   split_char sep (concat (map (\<lambda>l. l @ [sep]) ls)) = ls @ [[]]"
proof (induction ls)
  case Nil
  then show ?case by simp
next
  case (Cons l ls)
  then have "split_char sep (l @ sep # concat (map (\<lambda>l. l @ [sep]) ls)) = l # ls @ [[]]"
    by (simp add: split_char_line)
  then show ?case by simp
qed

lemma xjmtr_loop_step:
  "xjmtr_loop (f # fs) t =
     (if tagged_pdf f then xjmtr_loop fs (t @ tag_line f @ [CHR 0x0A]) else xjmtr_loop fs t)"
proof -
  have p: "split_char (CHR ''_'') f ! 0 = case_prefix f"
    by (simp add: split_char_first case_prefix_def)
  have t: "tagged_pdf f \<longleftrightarrow>
      (suffix ''.pdf'' (lower f) \<and> sublist ''judgment'' (lower f)) \<and> isdigit (case_prefix f)"
    unfolding tagged_pdf_def isdigit_def digit_chars_def by blast
  show ?thesis
  proof (cases "suffix ''.pdf'' (lower f) \<and> sublist ''judgment'' (lower f)")
    case True
    show ?thesis
    proof (cases "isdigit (case_prefix f)")
      case d: True
      from True d have "tagged_pdf f" unfolding t by blast
      with True d show ?thesis
        unfolding xjmtr_loop.simps Let_def p tag_line_def
        by (simp only: if_True simp_thms append_assoc)
    next
      case d: False
      from True d have "\<not> tagged_pdf f" unfolding t by blast
      with True d show ?thesis
        unfolding xjmtr_loop.simps Let_def p
        by (simp only: if_True if_False simp_thms)
    qed
  next
    case False
    then have "\<not> tagged_pdf f" unfolding t by blast
    with False show ?thesis
      unfolding xjmtr_loop.simps
      by (simp only: if_False simp_thms)
  qed
qed

lemma xjmtr_loop_text:
  "xjmtr_loop listing t =
     t @ concat (map (\<lambda>f. tag_line f @ [CHR 0x0A]) (filter tagged_pdf listing))"
proof (induction listing arbitrary: t)
  case Nil
  then show ?case by simp
next
  case (Cons f fs)
  show ?case
    unfolding xjmtr_loop_step Cons.IH by simp
qed

text \<open>
  C5, as the specification states it, fails: the name below ends in \<open>.pdf\<close> and contains
  \<open>judgment\<close>, and the part before its first underscore is the superscript two, U+00B2,
  which is no decimal digit. \<open>str.isdigit\<close> is true of it all the same, and the file gets
  a line for it.
\<close>

theorem superscript_prefix_tagged_counterexample:
  "CHR 0xB2 \<notin> set ''0123456789'' \<and>
   process_xjmtr [[CHR 0xB2] @ ''_judgment.pdf''] =
     ''FILENO'' @ [CHR 0x09] @ ''LLCODE'' @ [CHR 0x0A] @
     [CHR 0xB2] @ [CHR 0x09] @ ''XJMTR'' @ [CHR 0x0A]"
  by code_simp

text \<open>
  C5, amended. The text that \<open>process_xjmtr\<close> writes is the header line
  \<open>FILENO<tab>LLCODE\<close>, also when nothing is tagged, followed by one line
  \<open>prefix<tab>XJMTR\<close> for each entry of the listing, in its order, whose name ends in
  \<open>.pdf\<close> and contains \<open>judgment\<close> (both in any case) and whose part before the first
  underscore is not empty and has only characters that \<open>str.isdigit\<close> accepts: the decimal
  digits and, besides them, the superscript digits. No other entry gives a line. Read
  line by line, the file is the header, these lines, and nothing after the last newline.
\<close>

theorem process_xjmtr_lines:
  "process_xjmtr listing =
     ''FILENO'' @ [CHR 0x09] @ ''LLCODE'' @ [CHR 0x0A] @
     concat (map (\<lambda>f. tag_line f @ [CHR 0x0A]) (filter tagged_pdf listing)) \<and>
   split_char (CHR 0x0A) (process_xjmtr listing) =
     (''FILENO'' @ [CHR 0x09] @ ''LLCODE'') # map tag_line (filter tagged_pdf listing) @ [[]]"
proof
  show content: "process_xjmtr listing =
     ''FILENO'' @ [CHR 0x09] @ ''LLCODE'' @ [CHR 0x0A] @
     concat (map (\<lambda>f. tag_line f @ [CHR 0x0A]) (filter tagged_pdf listing))"
    by (simp add: process_xjmtr_def xjmtr_loop_text)
  let ?head = "''FILENO'' @ [CHR 0x09] @ ''LLCODE''"
  let ?tags = "map tag_line (filter tagged_pdf listing)"
  have "CHR 0x0A \<notin> set ?head" by simp
  moreover have "\<forall>l\<in>set ?tags. CHR 0x0A \<notin> set l"
    using tag_line_no_newline by auto
  ultimately have "\<forall>l\<in>set (?head # ?tags). CHR 0x0A \<notin> set l"
    by simp
  then have lines: "split_char (CHR 0x0A) (concat (map (\<lambda>l. l @ [CHR 0x0A]) (?head # ?tags))) =
      (?head # ?tags) @ [[]]"
    by (rule split_char_lines)
  have same: "concat (map (\<lambda>l. l @ [CHR 0x0A]) (?head # ?tags)) = process_xjmtr listing"
    unfolding content by (simp add: comp_def)
  from lines show "split_char (CHR 0x0A) (process_xjmtr listing) = ?head # ?tags @ [[]]"
    unfolding same by (simp only: append_Cons)
qed

theorem process_xjmtr_lines_witness:
  "process_xjmtr [] = ''FILENO'' @ [CHR 0x09] @ ''LLCODE'' @ [CHR 0x0A] \<and>
   filter tagged_pdf [''500_Judgment.PDF'', ''_judgment.pdf'', ''12a_judgment.pdf'', ''77_order.pdf'',
      ''9_default_JUDGMENT_2024.pdf'', ''31_judgment.docx''] =
     [''500_Judgment.PDF'', ''9_default_JUDGMENT_2024.pdf''] \<and>
   split_char (CHR 0x0A) (process_xjmtr [''500_Judgment.PDF'', ''_judgment.pdf'', ''12a_judgment.pdf'',
      ''77_order.pdf'', ''9_default_JUDGMENT_2024.pdf'', ''31_judgment.docx'']) =
     [''FILENO'' @ [CHR 0x09] @ ''LLCODE'', ''500'' @ [CHR 0x09] @ ''XJMTR'',
      ''9'' @ [CHR 0x09] @ ''XJMTR'', []]"
proof -
  have f0: "filter tagged_pdf [] = []" by simp
  have f: "filter tagged_pdf [''500_Judgment.PDF'', ''_judgment.pdf'', ''12a_judgment.pdf'', ''77_order.pdf'',
      ''9_default_JUDGMENT_2024.pdf'', ''31_judgment.docx''] =
     [''500_Judgment.PDF'', ''9_default_JUDGMENT_2024.pdf'']"
    by code_simp
  have t: "map tag_line [''500_Judgment.PDF'', ''9_default_JUDGMENT_2024.pdf''] =
     [''500'' @ [CHR 0x09] @ ''XJMTR'', ''9'' @ [CHR 0x09] @ ''XJMTR'']"
    by (simp add: tag_line_def case_prefix_def)
  have a: "process_xjmtr [] = ''FILENO'' @ [CHR 0x09] @ ''LLCODE'' @ [CHR 0x0A]"
    using process_xjmtr_lines [of "[]", THEN conjunct1] unfolding f0 by simp
  have b: "split_char (CHR 0x0A) (process_xjmtr [''500_Judgment.PDF'', ''_judgment.pdf'', ''12a_judgment.pdf'',
      ''77_order.pdf'', ''9_default_JUDGMENT_2024.pdf'', ''31_judgment.docx'']) =
     [''FILENO'' @ [CHR 0x09] @ ''LLCODE'', ''500'' @ [CHR 0x09] @ ''XJMTR'',
      ''9'' @ [CHR 0x09] @ ''XJMTR'', []]"
    using process_xjmtr_lines [of "[''500_Judgment.PDF'', ''_judgment.pdf'',
      ''12a_judgment.pdf'', ''77_order.pdf'', ''9_default_JUDGMENT_2024.pdf'', ''31_judgment.docx'']",
      THEN conjunct2]
    unfolding f t by (simp only: append_Cons append_Nil)
  from a b f show ?thesis by (intro conjI)
qed

section \<open>Properties of the file moves\<close>

lemma split_char_length: "Suc 0 < length (split_char sep s) \<longleftrightarrow> sep \<in> set s"
proof (induction s)
  case Nil
  then show ?case by simp
next
  case (Cons c cs)
  then show ?case
    using split_char_nonempty [of sep cs]
    by (cases "split_char sep cs") auto
qed

lemma split_char_drop:
  "sep \<in> set s \<Longrightarrow>
   split_char sep s =
     takeWhile (\<lambda>c. c \<noteq> sep) s # split_char sep (tl (dropWhile (\<lambda>c. c \<noteq> sep) s))"
proof (induction s)
  case Nil
  then show ?case by simp
next
  case (Cons c cs)
  show ?case
  proof (cases "c = sep")
    case True
    then show ?thesis by simp
  next
    case False
    with Cons.prems have "sep \<in> set cs" by simp
    from Cons.IH [OF this] False show ?thesis by simp
  qed
qed

lemma split_char_second:
  assumes "sep \<in> set s"
  shows "split_char sep s ! Suc 0 = takeWhile (\<lambda>c. c \<noteq> sep) (tl (dropWhile (\<lambda>c. c \<noteq> sep) s))"
proof -
  have "split_char sep s ! Suc 0 = split_char sep (tl (dropWhile (\<lambda>c. c \<noteq> sep) s)) ! 0"
    by (subst split_char_drop [OF assms]) simp
  then show ?thesis by (simp only: split_char_first)
qed

lemma move_entry_pdf:
  assumes "lower (snd (splitext filename)) = ''.pdf''"
  shows "move_entry src_dir data_folder documents_folder (filename, True) =
     [EnsureFolder (join documents_folder (pdf_subfolder filename)),
      Move (join src_dir filename)
        (join (join documents_folder (pdf_subfolder filename))
           (replace_char (CHR ''_'') (CHR '' '') filename))]"
proof -
  obtain name ext where se: "splitext filename = (name, ext)"
    by (cases "splitext filename")
  with assms have ext: "lower ext = ''.pdf''" by simp
  have folder: "(if length (split_char (CHR ''_'') name) > 1
                 then split_char (CHR ''_'') name ! 1 else ''Unknown'') = pdf_subfolder filename"
    by (simp add: pdf_subfolder_def se second_field_def split_char_length split_char_second)
  show ?thesis
    unfolding move_entry_def prod.case se Let_def folder
    by (simp add: ext)
qed

lemma move_loop_entry:
  "entry \<in> set entries \<Longrightarrow>
   set (move_entry src_dir data_folder documents_folder entry)
     \<subseteq> set (move_loop src_dir data_folder documents_folder entries)"
  by (induction entries) auto

text \<open>
  C8, amended. A file of the listing whose extension is \<open>.pdf\<close> in any case is moved into
  the subfolder of the documents folder that \<open>pdf_subfolder\<close> names, under its own name
  with every underscore replaced by a space. The subfolder is the second field of the
  name without its extension: what follows the first underscore, up to the second
  underscore or, when there is none, to the end of that name; and \<open>Unknown\<close> when the name
  has no underscore.
\<close>

theorem pdf_moved_to_second_field:
  assumes "(filename, True) \<in> set entries"
    and "lower (snd (splitext filename)) = ''.pdf''"
  shows "move_entry src_dir data_folder documents_folder (filename, True) =
           [EnsureFolder (join documents_folder (pdf_subfolder filename)),
            Move (join src_dir filename)
              (join (join documents_folder (pdf_subfolder filename))
                 (replace_char (CHR ''_'') (CHR '' '') filename))] \<and>
         Move (join src_dir filename)
           (join (join documents_folder (pdf_subfolder filename))
              (replace_char (CHR ''_'') (CHR '' '') filename))
         \<in> set (move_files src_dir data_folder documents_folder xjmtr_file_path entries)"
proof -
  note e = move_entry_pdf [OF assms(2), of src_dir data_folder documents_folder]
  have "Move (join src_dir filename)
           (join (join documents_folder (pdf_subfolder filename))
              (replace_char (CHR ''_'') (CHR '' '') filename))
        \<in> set (move_entry src_dir data_folder documents_folder (filename, True))"
    unfolding e by simp
  with move_loop_entry [OF assms(1), of src_dir data_folder documents_folder]
  have "Move (join src_dir filename)
           (join (join documents_folder (pdf_subfolder filename))
              (replace_char (CHR ''_'') (CHR '' '') filename))
        \<in> set (move_loop src_dir data_folder documents_folder entries)"
    by blast
  with e show ?thesis by (simp add: move_files_def)
qed

lemmas path_defs =
  move_files_def move_entry_def splitext_def join_def lower_def lower_char_def upper_chars_def
  lower_chars_def replace_char_def
  pdf_subfolder_def second_field_def suffix_to_prefix

theorem pdf_moved_to_second_field_witness:
  "lower (snd (splitext ''123_judgment_2024.pdf'')) = ''.pdf'' \<and>
   pdf_subfolder ''123_judgment_2024.pdf'' = ''judgment'' \<and>
   pdf_subfolder ''scan.PDF'' = ''Unknown'' \<and>
   Move ''src/123_judgment_2024.pdf'' ''Documents/judgment/123 judgment 2024.pdf''
     \<in> set (move_files ''src'' ''Data'' ''Documents'' ''xjmtr.txt''
              [(''123_summons.xlsx'', True), (''123_judgment_2024.pdf'', True), (''scan.PDF'', True)]) \<and>
   Move ''src/scan.PDF'' ''Documents/Unknown/scan.PDF''
     \<in> set (move_files ''src'' ''Data'' ''Documents'' ''xjmtr.txt''
              [(''123_summons.xlsx'', True), (''123_judgment_2024.pdf'', True), (''scan.PDF'', True)])"
proof -
  have e1: "lower (snd (splitext ''123_judgment_2024.pdf'')) = ''.pdf''"
    by (simp add: path_defs)
  have e2: "lower (snd (splitext ''scan.PDF'')) = ''.pdf''"
    by (simp add: path_defs)
  have m1: "(''123_judgment_2024.pdf'', True) \<in>
      set [(''123_summons.xlsx'', True), (''123_judgment_2024.pdf'', True), (''scan.PDF'', True)]"
    by simp
  have m2: "(''scan.PDF'', True) \<in>
      set [(''123_summons.xlsx'', True), (''123_judgment_2024.pdf'', True), (''scan.PDF'', True)]"
    by simp
  have s1: "pdf_subfolder ''123_judgment_2024.pdf'' = ''judgment''"
    by (simp add: path_defs)
  have s2: "pdf_subfolder ''scan.PDF'' = ''Unknown''"
    by (simp add: path_defs)
  from pdf_moved_to_second_field [OF m1 e1, of "''src''" "''Data''" "''Documents''" "''xjmtr.txt''",
      THEN conjunct2]
  have a: "Move ''src/123_judgment_2024.pdf'' ''Documents/judgment/123 judgment 2024.pdf''
     \<in> set (move_files ''src'' ''Data'' ''Documents'' ''xjmtr.txt''
              [(''123_summons.xlsx'', True), (''123_judgment_2024.pdf'', True), (''scan.PDF'', True)])"
    unfolding s1 by (simp add: join_def replace_char_def suffix_to_prefix)
  from pdf_moved_to_second_field [OF m2 e2, of "''src''" "''Data''" "''Documents''" "''xjmtr.txt''",
      THEN conjunct2]
  have b: "Move ''src/scan.PDF'' ''Documents/Unknown/scan.PDF''
     \<in> set (move_files ''src'' ''Data'' ''Documents'' ''xjmtr.txt''
              [(''123_summons.xlsx'', True), (''123_judgment_2024.pdf'', True), (''scan.PDF'', True)])"
    unfolding s2 by (simp add: join_def replace_char_def suffix_to_prefix)
  from e1 s1 s2 a b show ?thesis by (intro conjI)
qed

text \<open>
  C8, as the specification states it, fails: \<open>500_judgment.pdf\<close> has one underscore only, so
  nothing stands between a first and a second underscore, and yet the file does not go
  to \<open>Unknown\<close>: it goes to the subfolder \<open>judgment\<close>.
\<close>

theorem single_underscore_pdf_counterexample:
  "count_list ''500_judgment.pdf'' (CHR ''_'') = 1 \<and>
   move_files ''src'' ''Data'' ''Documents'' ''xjmtr.txt'' [(''500_judgment.pdf'', True)] =
     [WriteFile ''xjmtr.txt''
        (''FILENO'' @ [CHR 0x09] @ ''LLCODE'' @ [CHR 0x0A] @ ''500'' @ [CHR 0x09] @ ''XJMTR'' @ [CHR 0x0A]),
      EnsureFolder ''Documents/judgment'',
      Move ''src/500_judgment.pdf'' ''Documents/judgment/500 judgment.pdf'']"
  by code_simp

lemma takeWhile_shorter:
  assumes "x \<in> set xs" and "\<not> P x"
  shows "length (takeWhile P xs) < length xs"
proof -
  have "takeWhile P xs \<noteq> xs"
    using assms by (auto simp: takeWhile_eq_all_conv)
  moreover have "takeWhile P xs = take (length (takeWhile P xs)) xs"
    by (rule takeWhile_eq_take)
  ultimately have "length (takeWhile P xs) \<noteq> length xs"
    by (metis take_all order_refl)
  with length_takeWhile_le [of P xs] show ?thesis by simp
qed

lemma split_last_component:
  "p = rev (dropWhile (\<lambda>c. c \<noteq> sep) (rev p)) @ rev (takeWhile (\<lambda>c. c \<noteq> sep) (rev p))"
proof -
  have "rev (dropWhile (\<lambda>c. c \<noteq> sep) (rev p)) @ rev (takeWhile (\<lambda>c. c \<noteq> sep) (rev p)) =
        rev (takeWhile (\<lambda>c. c \<noteq> sep) (rev p) @ dropWhile (\<lambda>c. c \<noteq> sep) (rev p))"
    by (simp only: rev_append)
  also have "\<dots> = p"
    by (simp only: takeWhile_dropWhile_id rev_rev_ident)
  finally show ?thesis by (rule sym)
qed

lemma drop_suffix_part:
  assumes "p = h @ t" and "k \<le> length t"
  shows "drop (length p - k) p = drop (length t - k) t"
  using assms by simp

lemma splitext_snd: "snd (splitext p) = ext_of_component (last_component p)"
proof -
  let ?t = "last_component p"
  let ?k = "length (rev (takeWhile (\<lambda>c. c \<noteq> CHR ''.'') (rev ?t))) + 1"
  let ?c = "CHR ''.'' \<in> set ?t \<and> (\<exists>c\<in>set (take (length ?t - ?k) ?t). c \<noteq> CHR ''.'')"
  have unf: "splitext p = (if ?c then (take (length p - ?k) p, drop (length p - ?k) p) else (p, []))"
    unfolding splitext_def Let_def last_component_def ..
  show ?thesis
  proof (cases ?c)
    case True
    then have "CHR ''.'' \<in> set (rev ?t)" by simp
    then have "length (takeWhile (\<lambda>c. c \<noteq> CHR ''.'') (rev ?t)) < length (rev ?t)"
      by (rule takeWhile_shorter) simp
    then have k: "?k \<le> length ?t" by simp
    have "p = rev (dropWhile (\<lambda>c. c \<noteq> CHR ''/'') (rev p)) @ ?t"
      unfolding last_component_def by (rule split_last_component)
    from drop_suffix_part [OF this k]
    have "drop (length p - ?k) p = drop (length ?t - ?k) ?t" .
    with True show ?thesis
      unfolding unf ext_of_component_def by (simp only: if_True simp_thms snd_conv)
  next
    case False
    then show ?thesis
      unfolding unf ext_of_component_def by (simp only: if_False simp_thms snd_conv)
  qed
qed

lemma last_component_no_sep:
  assumes "CHR ''/'' \<notin> set b"
  shows "last_component b = b"
proof -
  from assms have e: "takeWhile (\<lambda>c. c \<noteq> CHR ''/'') (rev b) = rev b"
    by (auto simp: takeWhile_eq_all_conv)
  show ?thesis unfolding last_component_def e by (rule rev_rev_ident)
qed

lemma last_component_append:
  "last_component (a @ b) =
     (if CHR ''/'' \<in> set b then last_component b else last_component a @ b)"
proof (cases "CHR ''/'' \<in> set b")
  case True
  then have "CHR ''/'' \<in> set (rev b)" by simp
  then have "takeWhile (\<lambda>c. c \<noteq> CHR ''/'') (rev b @ rev a) = takeWhile (\<lambda>c. c \<noteq> CHR ''/'') (rev b)"
    by (rule takeWhile_append1) simp
  with True show ?thesis by (simp add: last_component_def)
next
  case False
  then have "\<And>x. x \<in> set (rev b) \<Longrightarrow> x \<noteq> CHR ''/''" by auto
  then have "takeWhile (\<lambda>c. c \<noteq> CHR ''/'') (rev b @ rev a) =
      rev b @ takeWhile (\<lambda>c. c \<noteq> CHR ''/'') (rev a)"
    by (rule takeWhile_append2)
  with False show ?thesis by (simp add: last_component_def)
qed

lemma last_component_sep: "last_component (a @ ''/'') = []"
  by (simp add: last_component_def)

lemma last_component_join: "last_component (join a b) = last_component b"
proof (cases "prefix ''/'' b")
  case True
  then show ?thesis by (simp add: join_def)
next
  case nb: False
  show ?thesis
  proof (cases "a = []")
    case True
    with nb show ?thesis by (simp add: join_def)
  next
    case na: False
    show ?thesis
    proof (cases "suffix ''/'' a")
      case True
      then obtain a' where a: "a = a' @ ''/''" by (auto simp: suffix_def)
      have "join a b = a @ b" using nb True by (simp add: join_def)
      moreover have "last_component a = []"
        unfolding a by (rule last_component_sep)
      then have "last_component (a @ b) = last_component b"
        unfolding last_component_append [of a b]
        by (simp add: last_component_no_sep)
      ultimately show ?thesis by simp
    next
      case False
      with nb na have "join a b = (a @ ''/'') @ b" by (simp add: join_def)
      moreover have "last_component ((a @ ''/'') @ b) = last_component b"
        unfolding last_component_append [of "a @ ''/''" b]
        by (simp add: last_component_sep last_component_no_sep)
      ultimately show ?thesis by simp
    qed
  qed
qed

lemma ext_join: "snd (splitext (join a b)) = snd (splitext b)"
  by (simp only: splitext_snd last_component_join)

lemma takeWhile_map_keep:
  assumes "\<And>c. h c = x \<longleftrightarrow> c = x"
  shows "takeWhile (\<lambda>c. c \<noteq> x) (map h xs) = map h (takeWhile (\<lambda>c. c \<noteq> x) xs)"
proof -
  have "(\<lambda>c. c \<noteq> x) \<circ> h = (\<lambda>c. c \<noteq> x)"
    using assms by (auto simp: fun_eq_iff)
  then show ?thesis by (simp add: takeWhile_map)
qed

lemma last_component_map:
  assumes "\<And>c. h c = CHR ''/'' \<longleftrightarrow> c = CHR ''/''"
  shows "last_component (map h p) = map h (last_component p)"
  unfolding last_component_def
  by (simp only: rev_map takeWhile_map_keep [OF assms])

lemma mem_map_keep:
  assumes "\<And>c. h c = x \<longleftrightarrow> c = x"
  shows "x \<in> set (map h t) \<longleftrightarrow> x \<in> set t"
proof
  assume "x \<in> set (map h t)"
  then obtain c where "c \<in> set t" "h c = x" by auto
  with assms show "x \<in> set t" by simp
next
  assume "x \<in> set t"
  moreover have "h x = x" using assms by simp
  ultimately show "x \<in> set (map h t)" by force
qed

lemma other_map_keep:
  assumes "\<And>c. h c = x \<longleftrightarrow> c = x"
  shows "(\<exists>c\<in>set (map h t). c \<noteq> x) \<longleftrightarrow> (\<exists>c\<in>set t. c \<noteq> x)"
proof
  assume "\<exists>c\<in>set (map h t). c \<noteq> x"
  then obtain c where "c \<in> set t" "h c \<noteq> x" by auto
  with assms show "\<exists>c\<in>set t. c \<noteq> x" by blast
next
  assume "\<exists>c\<in>set t. c \<noteq> x"
  then obtain c where "c \<in> set t" "c \<noteq> x" by auto
  with assms have "h c \<in> set (map h t)" "h c \<noteq> x" by simp_all
  then show "\<exists>c\<in>set (map h t). c \<noteq> x" by blast
qed

lemma ext_of_component_map:
  assumes "\<And>c. h c = CHR ''.'' \<longleftrightarrow> c = CHR ''.''"
  shows "ext_of_component (map h t) = map h (ext_of_component t)"
proof -
  let ?k = "length (rev (takeWhile (\<lambda>c. c \<noteq> CHR ''.'') (rev t))) + 1"
  have k: "length (rev (takeWhile (\<lambda>c. c \<noteq> CHR ''.'') (rev (map h t)))) + 1 = ?k"
    by (simp only: rev_map takeWhile_map_keep [OF assms] length_map)
  have dot: "CHR ''.'' \<in> set (map h t) \<longleftrightarrow> CHR ''.'' \<in> set t"
    by (rule mem_map_keep [OF assms])
  have "(\<exists>c\<in>set (map h (take (length t - ?k) t)). c \<noteq> CHR ''.'') \<longleftrightarrow>
        (\<exists>c\<in>set (take (length t - ?k) t). c \<noteq> CHR ''.'')"
    by (rule other_map_keep [OF assms])
  then have other: "(\<exists>c\<in>set (take (length (map h t) - ?k) (map h t)). c \<noteq> CHR ''.'') \<longleftrightarrow>
               (\<exists>c\<in>set (take (length t - ?k) t). c \<noteq> CHR ''.'')"
    by (simp only: take_map length_map)
  have d: "drop (length (map h t) - ?k) (map h t) = map h (drop (length t - ?k) t)"
    by (simp only: drop_map length_map)
  show ?thesis
    unfolding ext_of_component_def k dot other d
    by (simp only: if_distrib [of "map h"] list.map)
qed

lemma ext_map:
  assumes "\<And>c. h c = CHR ''/'' \<longleftrightarrow> c = CHR ''/''" and "\<And>c. h c = CHR ''.'' \<longleftrightarrow> c = CHR ''.''"
  shows "snd (splitext (map h p)) = map h (snd (splitext p))"
  by (simp only: splitext_snd last_component_map [OF assms(1)] ext_of_component_map [OF assms(2)])

lemma ext_replace_underscores:
  "snd (splitext (replace_char (CHR ''_'') (CHR '' '') p)) =
   replace_char (CHR ''_'') (CHR '' '') (snd (splitext p))"
  unfolding replace_char_def
proof (rule ext_map)
  fix c :: char
  show "((if c = CHR ''_'' then CHR '' '' else c) = CHR ''/'') = (c = CHR ''/'')"
    by (cases "c = CHR ''_''") simp_all
  show "((if c = CHR ''_'' then CHR '' '' else c) = CHR ''.'') = (c = CHR ''.'')"
    by (cases "c = CHR ''_''") simp_all
qed

lemma pdf_ext_no_underscore:
  assumes "lower e = ''.pdf''"
  shows "replace_char (CHR ''_'') (CHR '' '') e = e"
proof -
  have "CHR ''_'' \<notin> set e"
  proof
    assume "CHR ''_'' \<in> set e"
    then have "lower_char (CHR ''_'') \<in> set (lower e)" by (simp add: lower_def)
    then show False unfolding assms by (simp add: lower_char_def upper_chars_def lower_chars_def)
  qed
  then have "\<And>c. c \<in> set e \<Longrightarrow> (if c = CHR ''_'' then CHR '' '' else c) = c"
    by auto
  then have "map (\<lambda>c. if c = CHR ''_'' then CHR '' '' else c) e = e"
    by (rule map_idI)
  then show ?thesis by (simp only: replace_char_def)
qed

lemma move_entry_cases:
  "move_entry src_dir data_folder documents_folder (filename, is_file) =
     (if is_file \<and> lower (snd (splitext filename)) \<in> set [''.xlsx'', ''.xls'', ''.csv'']
      then [EnsureFolder (join data_folder (split_char (CHR ''_'') (fst (splitext filename)) ! 0)),
            Move (join src_dir filename)
              (join (join data_folder (split_char (CHR ''_'') (fst (splitext filename)) ! 0)) filename)]
      else if is_file \<and> lower (snd (splitext filename)) = ''.pdf''
      then [EnsureFolder (join documents_folder (pdf_subfolder filename)),
            Move (join src_dir filename)
              (join (join documents_folder (pdf_subfolder filename))
                 (replace_char (CHR ''_'') (CHR '' '') filename))]
      else [])"
proof (cases "is_file \<and> lower (snd (splitext filename)) = ''.pdf''")
  case True
  then have "lower (snd (splitext filename)) \<notin> set [''.xlsx'', ''.xls'', ''.csv'']"
    by simp
  with True move_entry_pdf [of filename src_dir data_folder documents_folder]
  show ?thesis by simp
next
  case False
  obtain name ext where se: "splitext filename = (name, ext)"
    by (cases "splitext filename")
  from False show ?thesis
    unfolding move_entry_def prod.case se Let_def fst_conv snd_conv
    by auto
qed

lemma move_entry_routed:
  assumes "Move a b \<in> set (move_entry src_dir data_folder documents_folder entry)"
  shows "routed_ext (snd (splitext a)) \<and> routed_ext (snd (splitext b))"
proof -
  obtain filename is_file where entry: "entry = (filename, is_file)" by (cases entry)
  let ?e = "snd (splitext filename)"
  show ?thesis
  proof (cases "is_file \<and> lower ?e \<in> set [''.xlsx'', ''.xls'', ''.csv'']")
    case True
    with assms have ab: "a = join src_dir filename"
      "b = join (join data_folder (split_char (CHR ''_'') (fst (splitext filename)) ! 0)) filename"
      unfolding entry move_entry_cases by simp_all
    from True have "routed_ext ?e" by (auto simp: routed_ext_def)
    then show ?thesis unfolding ab by (simp only: ext_join simp_thms)
  next
    case nd: False
    show ?thesis
    proof (cases "is_file \<and> lower ?e = ''.pdf''")
      case True
      with nd assms have ab: "a = join src_dir filename"
        "b = join (join documents_folder (pdf_subfolder filename))
               (replace_char (CHR ''_'') (CHR '' '') filename)"
        unfolding entry move_entry_cases by simp_all
      from True have r: "routed_ext ?e" by (simp add: routed_ext_def)
      from True have same: "replace_char (CHR ''_'') (CHR '' '') ?e = ?e"
        by (simp add: pdf_ext_no_underscore)
      from r show ?thesis
        unfolding ab by (simp only: ext_join ext_replace_underscores same simp_thms)
    next
      case False
      with nd assms show ?thesis
        unfolding entry move_entry_cases by (cases is_file) auto
    qed
  qed
qed

lemma move_loop_routed:
  "Move a b \<in> set (move_loop src_dir data_folder documents_folder entries) \<Longrightarrow>
   routed_ext (snd (splitext a)) \<and> routed_ext (snd (splitext b))"
proof (induction entries)
  case Nil
  then show ?case by simp
next
  case (Cons e es)
  then have "Move a b \<in> set (move_entry src_dir data_folder documents_folder e) \<or>
             Move a b \<in> set (move_loop src_dir data_folder documents_folder es)"
    by simp
  then show ?case
    using move_entry_routed Cons.IH by blast
qed

text \<open>
  C9. For a name whose extension is none of \<open>.xlsx\<close>, \<open>.xls\<close>, \<open>.csv\<close> and \<open>.pdf\<close> in any
  case, \<open>move_files\<close> makes no call for the entry, and no move of the whole run, for
  whatever listing, has the path of that file as its source or as its destination: the
  file is neither moved nor renamed, and nothing is moved onto it.
\<close>

theorem other_extension_left_in_place:
  assumes "\<not> routed_ext (snd (splitext filename))"
  shows "move_entry src_dir data_folder documents_folder (filename, is_file) = [] \<and>
         (\<forall>a b. Move a b \<in> set (move_files src_dir data_folder documents_folder xjmtr_file_path entries)
            \<longrightarrow> a \<noteq> join src_dir filename \<and> b \<noteq> join src_dir filename)"
proof
  from assms show "move_entry src_dir data_folder documents_folder (filename, is_file) = []"
    unfolding move_entry_cases by (auto simp: routed_ext_def)
  show "\<forall>a b. Move a b \<in> set (move_files src_dir data_folder documents_folder xjmtr_file_path entries)
            \<longrightarrow> a \<noteq> join src_dir filename \<and> b \<noteq> join src_dir filename"
  proof (intro allI impI)
    fix a b
    assume "Move a b \<in> set (move_files src_dir data_folder documents_folder xjmtr_file_path entries)"
    then have "Move a b \<in> set (move_loop src_dir data_folder documents_folder entries)"
      by (simp add: move_files_def)
    then have r: "routed_ext (snd (splitext a))" "routed_ext (snd (splitext b))"
      using move_loop_routed by blast+
    have "\<not> routed_ext (snd (splitext (join src_dir filename)))"
      using assms by (simp only: ext_join simp_thms)
    with r show "a \<noteq> join src_dir filename \<and> b \<noteq> join src_dir filename"
      by blast
  qed
qed

theorem other_extension_left_in_place_witness:
  "\<not> routed_ext (snd (splitext ''notes.txt'')) \<and>
   move_entry ''src'' ''Data'' ''Documents'' (''notes.txt'', True) = [] \<and>
   move_files ''src'' ''Data'' ''Documents'' ''xjmtr.txt''
     [(''123_summons.xlsx'', True), (''notes.txt'', True), (''README'', True)] =
     [WriteFile ''xjmtr.txt'' (''FILENO'' @ [CHR 0x09] @ ''LLCODE'' @ [CHR 0x0A]),
      EnsureFolder ''Data/123'',
      Move ''src/123_summons.xlsx'' ''Data/123/123_summons.xlsx'']"
proof -
  have h: "\<not> routed_ext (snd (splitext ''notes.txt''))"
    by (simp add: routed_ext_def path_defs)
  from other_extension_left_in_place [OF h, of "''src''" "''Data''" "''Documents''" True]
  have a: "move_entry ''src'' ''Data'' ''Documents'' (''notes.txt'', True) = []"
    by blast
  have b: "move_files ''src'' ''Data'' ''Documents'' ''xjmtr.txt''
     [(''123_summons.xlsx'', True), (''notes.txt'', True), (''README'', True)] =
     [WriteFile ''xjmtr.txt'' (''FILENO'' @ [CHR 0x09] @ ''LLCODE'' @ [CHR 0x0A]),
      EnsureFolder ''Data/123'',
      Move ''src/123_summons.xlsx'' ''Data/123/123_summons.xlsx'']"
    by code_simp
  from h a b show ?thesis by (intro conjI)
qed

end
